theory Spec2Isabelle
  imports
    Main
    "HOL-Library.Word"
    "HOL-Library.AList"
    "HOL-Library.Extended_Nat"
    "HOL-Library.Product_Lexorder"
begin

unbundle bit_operations_syntax

section \<open>Extendible hash table (extendible\_hash\_table.cpp)\<close>

text \<open>
  The C++ members end in an underscore (\<^verbatim>\<open>global_depth_\<close>, \<^verbatim>\<open>dir_\<close>, ...), which
  is not a legal constant name here: the underscore is dropped, and the three members of
  \<^verbatim>\<open>Bucket\<close> get the suffix \<open>_b\<close> (\<^verbatim>\<open>size_\<close>, \<^verbatim>\<open>depth_\<close>, \<^verbatim>\<open>list_\<close>).

  The code has no \<^verbatim>\<open>throw\<close> in this file. What can go wrong is undefined behaviour,
  and each such place is a value of \<open>error\<close>:
  \<^item> \<open>ShiftOverflow\<close>: \<^verbatim>\<open>(1 << d) - 1\<close> is computed in a 32-bit \<^verbatim>\<open>int\<close>; for
    \<open>d = 31\<close> the subtraction overflows and for \<open>d > 31\<close> the shift itself is undefined;
  \<^item> \<open>DirOutOfRange\<close>: \<^verbatim>\<open>dir_[index]\<close> with \<open>index\<close> beyond the vector;
  \<^item> \<open>EmptyBucket\<close>: \<^verbatim>\<open>*(bucket->GetItems().begin())\<close> on an empty list.
  Memory exhaustion (\<^verbatim>\<open>std::bad_alloc\<close>) is not modelled, and \<^verbatim>\<open>num_buckets_\<close>
  is an unbounded counter.
\<close>

datatype error = ShiftOverflow | DirOutOfRange | EmptyBucket

subsection \<open>Bucket\<close>

record ('k, 'v) Bucket =
  size_b :: nat
  depth_b :: nat
  list_b :: "('k \<times> 'v) list"

definition new_Bucket :: "nat \<Rightarrow> nat \<Rightarrow> ('k, 'v) Bucket" where
  "new_Bucket array_size depth = \<lparr>size_b = array_size, depth_b = depth, list_b = []\<rparr>"

text \<open>
  Modelled from the spec: \<^verbatim>\<open>Bucket::IsFull\<close> is an inline member of the header
  \<^verbatim>\<open>extendible_hash_table.h\<close>, which is not among the sources. The spec gives a bucket a
  fixed capacity, the bucket size configured at construction, and calls it full when it
  has no spare capacity. \<^verbatim>\<open>GetDepth\<close>, \<^verbatim>\<open>IncrementDepth\<close> and \<^verbatim>\<open>GetItems\<close> of the
  same header are the field accesses their names say.
\<close>

definition IsFull :: "('k, 'v) Bucket \<Rightarrow> bool" where
  "IsFull b = (length (list_b b) = size_b b)"

text \<open>\<^verbatim>\<open>Bucket::Find\<close>: the first entry with the key.\<close>

fun find_items :: "('k \<times> 'v) list \<Rightarrow> 'k \<Rightarrow> 'v option" where
  "find_items [] key = None"
| "find_items ((k, v) # rest) key = (if key = k then Some v else find_items rest key)"

definition Bucket_Find :: "('k, 'v) Bucket \<Rightarrow> 'k \<Rightarrow> 'v option" where
  "Bucket_Find b key = find_items (list_b b) key"

text \<open>\<^verbatim>\<open>Bucket::Remove\<close>: erases the first entry with the key; \<open>None\<close> when there is none.\<close>

fun remove_items :: "('k \<times> 'v) list \<Rightarrow> 'k \<Rightarrow> (('k \<times> 'v) list) option" where
  "remove_items [] key = None"
| "remove_items ((k, v) # rest) key =
     (if k = key then Some rest
      else (case remove_items rest key of
              None \<Rightarrow> None
            | Some rest' \<Rightarrow> Some ((k, v) # rest')))"

definition Bucket_Remove :: "('k, 'v) Bucket \<Rightarrow> 'k \<Rightarrow> bool \<times> ('k, 'v) Bucket" where
  "Bucket_Remove b key =
     (case remove_items (list_b b) key of
        None \<Rightarrow> (False, b)
      | Some l \<Rightarrow> (True, b\<lparr>list_b := l\<rparr>))"

text \<open>
  \<^verbatim>\<open>Bucket::Insert\<close>: the first loop overwrites the value of the first entry with the
  key (\<open>assign_items\<close>, \<open>None\<close> when the key is absent); otherwise the entry is appended
  unless the bucket is full.
\<close>

fun assign_items :: "('k \<times> 'v) list \<Rightarrow> 'k \<Rightarrow> 'v \<Rightarrow> (('k \<times> 'v) list) option" where
  "assign_items [] key val = None"
| "assign_items ((k, v) # rest) key val =
     (if k = key then Some ((k, val) # rest)
      else (case assign_items rest key val of
              None \<Rightarrow> None
            | Some rest' \<Rightarrow> Some ((k, v) # rest')))"

definition Bucket_Insert :: "('k, 'v) Bucket \<Rightarrow> 'k \<Rightarrow> 'v \<Rightarrow> bool \<times> ('k, 'v) Bucket" where
  "Bucket_Insert b key val =
     (case assign_items (list_b b) key val of
        Some l \<Rightarrow> (True, b\<lparr>list_b := l\<rparr>)
      | None \<Rightarrow>
          if IsFull b then (False, b)
          else (True, b\<lparr>list_b := list_b b @ [(key, val)]\<rparr>))"

subsection \<open>The table\<close>

text \<open>
  The directory holds \<^verbatim>\<open>std::shared_ptr<Bucket>\<close>: several slots may point to one
  bucket, and a write through one slot is seen through the others. The buckets therefore
  live in a store \<open>heap\<close> from addresses to buckets, and the directory is a list of
  addresses. \<open>next_addr\<close> is the address the next \<^verbatim>\<open>new Bucket\<close> returns. A bucket that no
  slot points to any more stays in the store; the C++ frees it, which no operation observes.

  \<^verbatim>\<open>std::hash<K>\<close> belongs to the standard library: it is the parameter \<open>h\<close> of every
  operation.
\<close>

type_synonym addr = nat

record ('k, 'v) ExtendibleHashTable =
  global_depth :: nat
  bucket_size :: nat
  num_buckets :: nat
  dir :: "addr list"
  heap :: "addr \<Rightarrow> ('k, 'v) Bucket"
  next_addr :: addr

text \<open>
  The constructor has no failing path: it returns \<open>Inr\<close> for every bucket size. It has the
  result type of the fallible operations so that this can be stated.
\<close>

definition new_ExtendibleHashTable :: "nat \<Rightarrow> error + ('k, 'v) ExtendibleHashTable" where
  "new_ExtendibleHashTable n =
     Inr \<lparr>global_depth = 0, bucket_size = n, num_buckets = 1, dir = [0],
          heap = (\<lambda>_. new_Bucket n 0), next_addr = 1\<rparr>"

text \<open>\<^verbatim>\<open>int mask = (1 << d) - 1\<close>, defined for \<open>d \<le> 30\<close>.\<close>

definition int_mask :: "nat \<Rightarrow> error + nat" where
  "int_mask d = (if 31 \<le> d then Inl ShiftOverflow else Inr (2 ^ d - 1))"

definition IndexOf :: "('k \<Rightarrow> nat) \<Rightarrow> ('k, 'v) ExtendibleHashTable \<Rightarrow> 'k \<Rightarrow> error + nat" where
  "IndexOf h t key =
     (case int_mask (global_depth t) of
        Inl e \<Rightarrow> Inl e
      | Inr msk \<Rightarrow> Inr (h key AND msk))"

definition Find :: "('k \<Rightarrow> nat) \<Rightarrow> ('k, 'v) ExtendibleHashTable \<Rightarrow> 'k \<Rightarrow> error + 'v option" where
  "Find h t key =
     (case IndexOf h t key of
        Inl e \<Rightarrow> Inl e
      | Inr index \<Rightarrow>
          if index < length (dir t) then Inr (Bucket_Find (heap t (dir t ! index)) key)
          else Inl DirOutOfRange)"

definition Remove :: "('k \<Rightarrow> nat) \<Rightarrow> ('k, 'v) ExtendibleHashTable \<Rightarrow> 'k
    \<Rightarrow> error + (bool \<times> ('k, 'v) ExtendibleHashTable)" where
  "Remove h t key =
     (case IndexOf h t key of
        Inl e \<Rightarrow> Inl e
      | Inr index \<Rightarrow>
          if index < length (dir t) then
            (let a = dir t ! index; (flag, b) = Bucket_Remove (heap t a) key
             in Inr (flag, t\<lparr>heap := (heap t)(a := b)\<rparr>))
          else Inl DirOutOfRange)"

subsection \<open>Splitting a bucket\<close>

text \<open>
  The loop of \<^verbatim>\<open>RedistributeBucket\<close> over the entries of the bucket. Its state is the
  entries kept so far, the new bucket \<open>p\<close> and the directory. An entry whose index under
  the new mask differs from \<open>pre_index\<close> is inserted into \<open>p\<close> (the result of
  \<^verbatim>\<open>p->Insert\<close> is ignored), erased from the bucket, and the one slot \<open>dir_[index]\<close> is
  pointed to \<open>p\<close>, whose address is \<open>pa\<close>.
\<close>

fun redistribute_loop :: "('k \<Rightarrow> nat) \<Rightarrow> nat \<Rightarrow> nat \<Rightarrow> addr \<Rightarrow> ('k \<times> 'v) list
    \<Rightarrow> ('k \<times> 'v) list \<times> ('k, 'v) Bucket \<times> addr list
    \<Rightarrow> error + (('k \<times> 'v) list \<times> ('k, 'v) Bucket \<times> addr list)" where
  "redistribute_loop h msk pre_index pa [] st = Inr st"
| "redistribute_loop h msk pre_index pa ((k, v) # rest) (kept, p, d) =
     (let index = h k AND msk in
      if index \<noteq> pre_index then
        (if index < length d
         then redistribute_loop h msk pre_index pa rest
                (kept, snd (Bucket_Insert p k v), d[index := pa])
         else Inl DirOutOfRange)
      else redistribute_loop h msk pre_index pa rest (kept @ [(k, v)], p, d))"

text \<open>
  \<^verbatim>\<open>RedistributeBucket(bucket)\<close>, with the bucket given by its address \<open>a\<close>. The
  commented-out loop over the whole directory at the end of the C++ function is not
  executed and is not part of the model.
\<close>

definition RedistributeBucket :: "('k \<Rightarrow> nat) \<Rightarrow> ('k, 'v) ExtendibleHashTable \<Rightarrow> addr
    \<Rightarrow> error + ('k, 'v) ExtendibleHashTable" where
  "RedistributeBucket h t a =
     (let bucket = heap t a;
          localdepth = depth_b bucket + 1;
          pa = next_addr t;
          p = new_Bucket (bucket_size t) localdepth
      in case int_mask localdepth of
           Inl e \<Rightarrow> Inl e
         | Inr msk \<Rightarrow>
            (case int_mask (localdepth - 1) of
               Inl e \<Rightarrow> Inl e
             | Inr pre_mask \<Rightarrow>
                (case list_b bucket of
                   [] \<Rightarrow> Inl EmptyBucket
                 | first # _ \<Rightarrow>
                    (let pre_index = h (fst first) AND pre_mask in
                     case redistribute_loop h msk pre_index pa (list_b bucket) ([], p, dir t) of
                       Inl e \<Rightarrow> Inl e
                     | Inr (kept, p', d') \<Rightarrow>
                         Inr (t\<lparr>num_buckets := num_buckets t + 1,
                                dir := d',
                                heap := (heap t)
                                  (a := bucket\<lparr>depth_b := localdepth, list_b := kept\<rparr>, pa := p'),
                                next_addr := pa + 1\<rparr>)))))"

subsection \<open>Insert\<close>

text \<open>
  One iteration of the \<^verbatim>\<open>while(true)\<close> loop of \<^verbatim>\<open>Insert\<close>: either the call is over
  (\<open>Done\<close>, with the table or the error), or the loop goes round again with a split bucket
  or a doubled directory (\<open>Retry\<close>).
\<close>

datatype ('k, 'v) step =
    Done "error + ('k, 'v) ExtendibleHashTable"
  | Retry "('k, 'v) ExtendibleHashTable"

definition Insert_body :: "('k \<Rightarrow> nat) \<Rightarrow> ('k, 'v) ExtendibleHashTable \<Rightarrow> 'k \<Rightarrow> 'v
    \<Rightarrow> ('k, 'v) step" where
  "Insert_body h t key val =
     (case IndexOf h t key of
        Inl e \<Rightarrow> Done (Inl e)
      | Inr index \<Rightarrow>
          if \<not> index < length (dir t) then Done (Inl DirOutOfRange)
          else
            (let a = dir t ! index; (flag, b) = Bucket_Insert (heap t a) key val in
             if flag then Done (Inr (t\<lparr>heap := (heap t)(a := b)\<rparr>))
             else if depth_b (heap t a) \<noteq> global_depth t then
               (case RedistributeBucket h t a of
                  Inl e \<Rightarrow> Done (Inl e)
                | Inr t' \<Rightarrow> Retry t')
             else Retry (t\<lparr>global_depth := global_depth t + 1, dir := dir t @ dir t\<rparr>)))"

text \<open>
  The loop ends in the model on every table: each round either raises the global depth,
  which \<open>IndexOf\<close> accepts only below 31, or raises the local depth of the bucket the key
  is routed to, which \<open>RedistributeBucket\<close> accepts only below 31. The lemmas up to
  the termination proof establish this measure.
\<close>

lemma Bucket_Insert_depth [simp]: "depth_b (snd (Bucket_Insert b k v)) = depth_b b"
  by (simp add: Bucket_Insert_def split: option.splits)

lemma Bucket_Insert_size [simp]: "size_b (snd (Bucket_Insert b k v)) = size_b b"
  by (simp add: Bucket_Insert_def split: option.splits)

lemma redistribute_loop_shape:
  "redistribute_loop h m pre pa items (kept, p, d) = Inr (kept', p', d') \<Longrightarrow>
     length d' = length d \<and> depth_b p' = depth_b p \<and> size_b p' = size_b p \<and>
     (\<forall>i < length d. d' ! i = d ! i \<or> d' ! i = pa)"
proof (induction items arbitrary: kept p d)
  case Nil
  then show ?case by simp
next
  case (Cons kv items)
  obtain k v where kv: "kv = (k, v)" by (cases kv)
  show ?case
  proof (cases "h k AND m \<noteq> pre")
    case True
    with Cons.prems kv have inr: "h k AND m < length d"
      and rec: "redistribute_loop h m pre pa items
                 (kept, snd (Bucket_Insert p k v), d[h k AND m := pa]) = Inr (kept', p', d')"
      by (auto simp: Let_def split: if_splits)
    from Cons.IH [OF rec] have ih: "length d' = length d" "depth_b p' = depth_b p"
      "size_b p' = size_b p"
      "\<forall>i < length d. d' ! i = d[h k AND m := pa] ! i \<or> d' ! i = pa"
      by simp_all
    have "d' ! i = d ! i \<or> d' ! i = pa" if "i < length d" for i
      using ih(4) that by (cases "i = h k AND m") (auto simp: nth_list_update)
    with ih show ?thesis by simp
  next
    case False
    with Cons.prems kv have
      rec: "redistribute_loop h m pre pa items (kept @ [(k, v)], p, d) = Inr (kept', p', d')"
      by (auto simp: Let_def)
    from Cons.IH [OF rec] show ?thesis by simp
  qed
qed

lemma redistribute_loop_error:
  "redistribute_loop h m pre pa items st = Inl e \<Longrightarrow> e = DirOutOfRange"
proof (induction items arbitrary: st)
  case Nil
  then show ?case by simp
next
  case (Cons kv items)
  obtain k v where kv: "kv = (k, v)" by (cases kv)
  obtain kept p d where st: "st = (kept, p, d)" by (cases st)
  show ?case
  proof (cases "h k AND m \<noteq> pre")
    case True
    with Cons.prems show ?thesis
      unfolding kv st by (auto simp: Let_def split: if_splits dest: Cons.IH)
  next
    case False
    with Cons.prems have "redistribute_loop h m pre pa items (kept @ [(k, v)], p, d) = Inl e"
      unfolding kv st by (simp add: Let_def)
    then show ?thesis by (rule Cons.IH)
  qed
qed
lemma RedistributeBucket_shape:
  assumes "RedistributeBucket h t a = Inr t'"
  shows "global_depth t' = global_depth t"
    and "bucket_size t' = bucket_size t"
    and "length (dir t') = length (dir t)"
    and "depth_b (heap t a) + 1 < 31"
    and "\<forall>i < length (dir t). dir t' ! i = dir t ! i \<or> dir t' ! i = next_addr t"
    and "depth_b (heap t' a) = depth_b (heap t a) + 1"
    and "depth_b (heap t' (next_addr t)) = depth_b (heap t a) + 1"
    and "list_b (heap t a) \<noteq> []"
proof -
  let ?ld = "depth_b (heap t a) + 1"
  from assms obtain msk pre_mask first items kept p' d' where
    m: "int_mask ?ld = Inr msk" and pm: "int_mask (?ld - 1) = Inr pre_mask"
    and l: "list_b (heap t a) = first # items"
    and loop: "redistribute_loop h msk (h (fst first) AND pre_mask) (next_addr t) (list_b (heap t a))
                 ([], new_Bucket (bucket_size t) ?ld, dir t) = Inr (kept, p', d')"
    and t': "t' = t\<lparr>num_buckets := num_buckets t + 1, dir := d',
                   heap := (heap t)(a := (heap t a)\<lparr>depth_b := ?ld, list_b := kept\<rparr>, next_addr t := p'),
                   next_addr := next_addr t + 1\<rparr>"
    by (auto simp: RedistributeBucket_def Let_def split: sum.splits list.splits prod.splits)
  note sh = redistribute_loop_shape [OF loop]
  show "global_depth t' = global_depth t" "bucket_size t' = bucket_size t" by (simp_all add: t')
  show "length (dir t') = length (dir t)" using sh by (simp add: t')
  show "?ld < 31" using m by (simp add: int_mask_def split: if_splits)
  show "\<forall>i < length (dir t). dir t' ! i = dir t ! i \<or> dir t' ! i = next_addr t"
    using sh by (simp add: t')
  show "depth_b (heap t' a) = ?ld" using sh by (simp add: t' new_Bucket_def)
  show "depth_b (heap t' (next_addr t)) = ?ld" using sh by (simp add: t' new_Bucket_def)
  show "list_b (heap t a) \<noteq> []" using l by simp
qed

definition route :: "('k \<Rightarrow> nat) \<Rightarrow> ('k, 'v) ExtendibleHashTable \<Rightarrow> 'k \<Rightarrow> nat" where
  "route h t key = depth_b (heap t (dir t ! (h key AND (2 ^ global_depth t - 1))))"

lemma Insert_body_Retry_decreases:
  assumes "Insert_body h t key val = Retry t'"
  shows "31 - global_depth t' < 31 - global_depth t \<or>
         (global_depth t' = global_depth t \<and> 31 - route h t' key < 31 - route h t key)"
proof -
  from assms obtain index where io: "IndexOf h t key = Inr index"
    by (auto simp: Insert_body_def split: sum.splits)
  then have g: "global_depth t < 31" and index: "index = h key AND (2 ^ global_depth t - 1)"
    by (auto simp: IndexOf_def int_mask_def split: if_splits)
  from assms io have inr: "index < length (dir t)"
    by (auto simp: Insert_body_def split: if_splits)
  let ?a = "dir t ! index"
  show ?thesis
  proof (cases "depth_b (heap t ?a) \<noteq> global_depth t")
    case True
    with assms io inr have r: "RedistributeBucket h t ?a = Inr t'"
      by (auto simp: Insert_body_def Let_def split: prod.splits if_splits sum.splits)
    note sh = RedistributeBucket_shape [OF r]
    from sh(5) inr have "dir t' ! index = ?a \<or> dir t' ! index = next_addr t" by blast
    then have "route h t' key = depth_b (heap t ?a) + 1"
      using sh(1,6,7) by (auto simp: route_def index)
    moreover have "route h t key = depth_b (heap t ?a)" by (simp add: route_def index)
    ultimately show ?thesis using sh(1,4) by simp
  next
    case False
    with assms io inr have "t' = t\<lparr>global_depth := global_depth t + 1, dir := dir t @ dir t\<rparr>"
      by (auto simp: Insert_body_def Let_def split: prod.splits if_splits sum.splits)
    then show ?thesis using g by simp
  qed
qed

function Insert :: "('k \<Rightarrow> nat) \<Rightarrow> ('k, 'v) ExtendibleHashTable \<Rightarrow> 'k \<Rightarrow> 'v
    \<Rightarrow> error + ('k, 'v) ExtendibleHashTable" where
  "Insert h t key val =
     (case Insert_body h t key val of
        Done r \<Rightarrow> r
      | Retry t' \<Rightarrow> Insert h t' key val)"
  by pat_completeness auto
termination
proof (relation "measures [\<lambda>(h, t, key, val). 31 - global_depth t,
                           \<lambda>(h, t, key, val). 31 - route h t key]")
  show "wf (measures [\<lambda>(h, t, key, val). 31 - global_depth t,
                      \<lambda>(h, t, key, val). 31 - route h t key])" by simp
next
  fix h :: "'k \<Rightarrow> nat" and t t' :: "('k, 'v) ExtendibleHashTable" and key val
  assume "Insert_body h t key val = Retry t'"
  from Insert_body_Retry_decreases [OF this]
  show "((h, t', key, val), (h, t, key, val))
          \<in> measures [\<lambda>(h, t, key, val). 31 - global_depth t,
                       \<lambda>(h, t, key, val). 31 - route h t key]"
    by auto
qed

declare Insert.simps [simp del]

subsection \<open>Sequences of calls\<close>

datatype ('k, 'v) ht_op = OpInsert 'k 'v | OpRemove 'k | OpFind 'k

fun ht_apply :: "('k \<Rightarrow> nat) \<Rightarrow> ('k, 'v) ExtendibleHashTable \<Rightarrow> ('k, 'v) ht_op
    \<Rightarrow> error + ('k, 'v) ExtendibleHashTable" where
  "ht_apply h t (OpInsert k v) = Insert h t k v"
| "ht_apply h t (OpRemove k) =
     (case Remove h t k of Inl e \<Rightarrow> Inl e | Inr (flag, t') \<Rightarrow> Inr t')"
| "ht_apply h t (OpFind k) =
     (case Find h t k of Inl e \<Rightarrow> Inl e | Inr v \<Rightarrow> Inr t)"

fun run_ops :: "('k \<Rightarrow> nat) \<Rightarrow> ('k, 'v) ht_op list \<Rightarrow> error + ('k, 'v) ExtendibleHashTable
    \<Rightarrow> error + ('k, 'v) ExtendibleHashTable" where
  "run_ops h [] r = r"
| "run_ops h (op # ops) r =
     (case r of Inl e \<Rightarrow> Inl e | Inr t \<Rightarrow> run_ops h ops (ht_apply h t op))"

text \<open>\<^verbatim>\<open>Insert(key, val)\<close> followed by \<^verbatim>\<open>Find(key)\<close>, as one call sequence.\<close>

definition Insert_then_Find :: "('k \<Rightarrow> nat) \<Rightarrow> ('k, 'v) ExtendibleHashTable \<Rightarrow> 'k \<Rightarrow> 'v
    \<Rightarrow> error + 'v option" where
  "Insert_then_Find h t key val =
     (case Insert h t key val of
        Inl e \<Rightarrow> Inl e
      | Inr t' \<Rightarrow> Find h t' key)"

text \<open>
  For \<^verbatim>\<open>K = int\<close> the standard libraries of GCC and Clang hash a key to itself,
  converted to \<^verbatim>\<open>size_t\<close>. The concrete runs below use this hash.
\<close>

definition std_hash_int :: "int \<Rightarrow> nat" where
  "std_hash_int k = nat (k mod 2 ^ 64)"

text \<open>
  The invariant of the spec on aliasing slots, as a test on a table: two slots that
  point to the same bucket agree on the low \<open>d\<close> bits of their index, \<open>d\<close> the local
  depth of the bucket.
\<close>

definition slots_agree :: "('k, 'v) ExtendibleHashTable \<Rightarrow> nat \<Rightarrow> nat \<Rightarrow> bool" where
  "slots_agree t i j =
     (if dir t ! i = dir t ! j
      then i mod 2 ^ depth_b (heap t (dir t ! i)) = j mod 2 ^ depth_b (heap t (dir t ! i))
      else True)"

definition aliasing_invariant :: "('k, 'v) ExtendibleHashTable \<Rightarrow> bool" where
  "aliasing_invariant t =
     list_all (\<lambda>i. list_all (slots_agree t i) [0..<length (dir t)]) [0..<length (dir t)]"

text \<open>
  Every bucket the directory points to has the capacity the table was built with, and that
  capacity is not zero.
\<close>

definition sizes_ok :: "('k, 'v) ExtendibleHashTable \<Rightarrow> bool" where
  "sizes_ok t = (0 < bucket_size t \<and> (\<forall>a \<in> set (dir t). size_b (heap t a) = bucket_size t))"

text \<open>
  The shape of the tables the operations are meant to work on: the directory has
  \<open>2 ^ global_depth\<close> slots and no bucket is deeper than the directory.
\<close>

definition table_wf :: "('k, 'v) ExtendibleHashTable \<Rightarrow> bool" where
  "table_wf t = (length (dir t) = 2 ^ global_depth t \<and>
     (\<forall>a \<in> set (dir t). depth_b (heap t a) \<le> global_depth t) \<and> sizes_ok t)"

text \<open>
  The tables that the insertion of key 1 goes through when a table of bucket size 1
  holds key 0: one bucket of capacity 1 with the entry for key 0, and every slot pointing
  to it.
\<close>

definition stuck :: "(int, 'v) ExtendibleHashTable \<Rightarrow> 'v \<Rightarrow> bool" where
  "stuck t a =
     (global_depth t \<le> 31 \<and> dir t = replicate (2 ^ global_depth t) 0 \<and> 0 < next_addr t \<and>
      size_b (heap t 0) = 1 \<and> list_b (heap t 0) = [(0, a)] \<and>
      depth_b (heap t 0) \<le> global_depth t)"

subsection \<open>Round trip of Insert and Find\<close>

lemma and_mask_mod: "(x::nat) AND (2 ^ n - 1) = x mod 2 ^ n"
proof -
  have "x AND (2 ^ n - 1) = x AND mask n" by (simp only: mask_eq_exp_minus_1)
  also have "\<dots> = take_bit n x" by (simp only: take_bit_eq_mask)
  also have "\<dots> = x mod 2 ^ n" by (simp only: take_bit_eq_mod)
  finally show ?thesis .
qed

lemma assign_items_find:
  "assign_items l key val = Some l' \<Longrightarrow> find_items l' key = Some val"
  by (induction l arbitrary: l') (auto split: if_splits option.splits)

lemma assign_items_None_find:
  "assign_items l key val = None \<Longrightarrow> find_items (l @ [(key, val)]) key = Some val"
  by (induction l) (auto split: if_splits option.splits)

lemma Bucket_Insert_Find:
  "Bucket_Insert b key val = (True, b') \<Longrightarrow> Bucket_Find b' key = Some val"
  by (auto simp: Bucket_Insert_def Bucket_Find_def assign_items_find assign_items_None_find
           split: option.splits if_splits)

lemma Insert_body_Done_Find:
  assumes "Insert_body h t key val = Done (Inr t')"
  shows "Find h t' key = Inr (Some val)"
proof -
  from assms obtain index where io: "IndexOf h t key = Inr index"
    by (auto simp: Insert_body_def split: sum.splits)
  from assms io have inr: "index < length (dir t)"
    by (auto simp: Insert_body_def split: if_splits)
  obtain flag b where bi: "Bucket_Insert (heap t (dir t ! index)) key val = (flag, b)"
    by (cases "Bucket_Insert (heap t (dir t ! index)) key val")
  from assms io inr bi have flag: "flag" and t': "t' = t\<lparr>heap := (heap t)(dir t ! index := b)\<rparr>"
    by (auto simp: Insert_body_def Let_def split: if_splits sum.splits)
  from io have "IndexOf h t' key = Inr index" by (simp add: IndexOf_def t')
  moreover have "Bucket_Find b key = Some val" using bi flag by (simp add: Bucket_Insert_Find)
  ultimately show ?thesis using inr by (simp add: Find_def t')
qed

lemma Insert_Find: "Insert h t key val = Inr t' \<Longrightarrow> Find h t' key = Inr (Some val)"
proof (induction h t key val rule: Insert.induct)
  case (1 h t key val)
  show ?case
  proof (cases "Insert_body h t key val")
    case (Done r)
    with "1.prems" have "r = Inr t'" by (subst (asm) Insert.simps) simp
    with Done show ?thesis by (simp add: Insert_body_Done_Find)
  next
    case (Retry t'')
    with "1.prems" have "Insert h t'' key val = Inr t'" by (subst (asm) Insert.simps) simp
    with Retry "1.IH" show ?thesis by simp
  qed
qed

lemmas eval_defs =
  new_ExtendibleHashTable_def Insert.simps Insert_body_def IndexOf_def int_mask_def
  std_hash_int_def Bucket_Insert_def IsFull_def new_Bucket_def RedistributeBucket_def
  Find_def Bucket_Find_def Let_def

text \<open>
  What holds of the round trip is \<open>Insert_Find\<close>: when \<^verbatim>\<open>Insert(key, val)\<close> returns, the
  table it leaves yields \<open>val\<close> for \<^verbatim>\<open>Find(key)\<close>. The run of the spec with bucket size 2
  is such a case: after keys 1 and 2 the table has global depth 0 and its one bucket, of
  local depth 0, is full; inserting key 3 returns a table of global depth 1 with two
  slots, both of local depth 1, in which the three keys are found with their values.
\<close>

lemma spec_run_keys_1_2_3:
  "\<exists>t2 t3.
      run_ops std_hash_int [OpInsert 1 a, OpInsert 2 b] (new_ExtendibleHashTable 2) = Inr t2
      \<and> global_depth t2 = 0 \<and> length (dir t2) = 1 \<and> depth_b (heap t2 (dir t2 ! 0)) = 0
      \<and> IsFull (heap t2 (dir t2 ! 0))
      \<and> Insert std_hash_int t2 3 c = Inr t3
      \<and> global_depth t3 = 1 \<and> length (dir t3) = 2
      \<and> depth_b (heap t3 (dir t3 ! 0)) = 1 \<and> depth_b (heap t3 (dir t3 ! 1)) = 1
      \<and> Find std_hash_int t3 1 = Inr (Some a) \<and> Find std_hash_int t3 2 = Inr (Some b)
      \<and> Find std_hash_int t3 3 = Inr (Some c)"
  by (simp add: eval_defs)

subsection \<open>The split never reads an empty bucket\<close>

lemma Bucket_Insert_fails_full:
  "Bucket_Insert b key val = (False, b') \<Longrightarrow> IsFull b"
  by (auto simp: Bucket_Insert_def split: option.splits if_splits)

lemma RedistributeBucket_sizes:
  assumes "RedistributeBucket h t a = Inr t'"
  shows "size_b (heap t' (next_addr t)) = bucket_size t"
    and "x \<noteq> next_addr t \<Longrightarrow> size_b (heap t' x) = size_b (heap t x)"
proof -
  let ?ld = "depth_b (heap t a) + 1"
  from assms obtain msk pre_mask first items kept p' d' where
    loop: "redistribute_loop h msk (h (fst first) AND pre_mask) (next_addr t) (list_b (heap t a))
                 ([], new_Bucket (bucket_size t) ?ld, dir t) = Inr (kept, p', d')"
    and t': "t' = t\<lparr>num_buckets := num_buckets t + 1, dir := d',
                   heap := (heap t)(a := (heap t a)\<lparr>depth_b := ?ld, list_b := kept\<rparr>, next_addr t := p'),
                   next_addr := next_addr t + 1\<rparr>"
    by (auto simp: RedistributeBucket_def Let_def split: sum.splits list.splits prod.splits)
  note sh = redistribute_loop_shape [OF loop]
  show "size_b (heap t' (next_addr t)) = bucket_size t" using sh by (simp add: t' new_Bucket_def)
  show "x \<noteq> next_addr t \<Longrightarrow> size_b (heap t' x) = size_b (heap t x)" by (simp add: t')
qed

lemma RedistributeBucket_sizes_ok:
  assumes r: "RedistributeBucket h t a = Inr t'" and ok: "sizes_ok t"
  shows "sizes_ok t'"
proof -
  note sh = RedistributeBucket_shape [OF r] and sz = RedistributeBucket_sizes [OF r]
  have "size_b (heap t' x) = bucket_size t'" if "x \<in> set (dir t')" for x
  proof -
    from that obtain i where i: "i < length (dir t')" "dir t' ! i = x"
      by (auto simp: in_set_conv_nth)
    with sh(3,5) have "x = dir t ! i \<or> x = next_addr t" by auto
    then show ?thesis
    proof
      assume "x = next_addr t"
      then show ?thesis using sz(1) sh(2) by simp
    next
      assume x: "x = dir t ! i"
      show ?thesis
      proof (cases "x = next_addr t")
        case True then show ?thesis using sz(1) sh(2) by simp
      next
        case False
        from x i sh(3) have "x \<in> set (dir t)" by simp
        with ok False sz(2) sh(2) show ?thesis by (simp add: sizes_ok_def)
      qed
    qed
  qed
  with ok sh(2) show ?thesis by (simp add: sizes_ok_def)
qed

lemma failed_Bucket_Insert_nonempty:
  assumes "sizes_ok t" and "index < length (dir t)"
    and "Bucket_Insert (heap t (dir t ! index)) key val = (False, b')"
  shows "IsFull (heap t (dir t ! index)) \<and> list_b (heap t (dir t ! index)) \<noteq> []"
proof -
  from assms(3) have full: "IsFull (heap t (dir t ! index))" by (rule Bucket_Insert_fails_full)
  from assms(1,2) have "0 < size_b (heap t (dir t ! index))" by (simp add: sizes_ok_def)
  with full show ?thesis by (auto simp: IsFull_def)
qed

lemma Insert_body_sizes_ok:
  assumes ok: "sizes_ok t"
  shows "Insert_body h t key val \<noteq> Done (Inl EmptyBucket)"
    and "Insert_body h t key val = Done (Inr t') \<Longrightarrow> sizes_ok t'"
    and "Insert_body h t key val = Retry t' \<Longrightarrow> sizes_ok t'"
proof -
  show "Insert_body h t key val \<noteq> Done (Inl EmptyBucket)"
  proof
    assume a: "Insert_body h t key val = Done (Inl EmptyBucket)"
    then obtain index where io: "IndexOf h t key = Inr index"
      by (auto simp: Insert_body_def IndexOf_def int_mask_def split: sum.splits if_splits)
    from a io have inr: "index < length (dir t)"
      by (auto simp: Insert_body_def split: if_splits)
    obtain flag b where bi: "Bucket_Insert (heap t (dir t ! index)) key val = (flag, b)"
      by (cases "Bucket_Insert (heap t (dir t ! index)) key val")
    from a io inr bi have nf: "\<not> flag"
      and r: "RedistributeBucket h t (dir t ! index) = Inl EmptyBucket"
      by (auto simp: Insert_body_def Let_def split: if_splits sum.splits)
    from failed_Bucket_Insert_nonempty [OF ok inr] bi nf
    have ne: "list_b (heap t (dir t ! index)) \<noteq> []" by simp
    from r ne show False
      by (auto simp: RedistributeBucket_def Let_def int_mask_def
               split: sum.splits list.splits prod.splits if_splits
               dest: redistribute_loop_error)
  qed
next
  assume a: "Insert_body h t key val = Done (Inr t')"
  then obtain index where io: "IndexOf h t key = Inr index"
    by (auto simp: Insert_body_def split: sum.splits)
  from a io have inr: "index < length (dir t)"
    by (auto simp: Insert_body_def split: if_splits)
  obtain flag b where bi: "Bucket_Insert (heap t (dir t ! index)) key val = (flag, b)"
    by (cases "Bucket_Insert (heap t (dir t ! index)) key val")
  from a io inr bi have t': "t' = t\<lparr>heap := (heap t)(dir t ! index := b)\<rparr>"
    by (auto simp: Insert_body_def Let_def split: if_splits sum.splits)
  have "size_b b = size_b (heap t (dir t ! index))"
    using Bucket_Insert_size [of "heap t (dir t ! index)" key val] bi by simp
  with ok show "sizes_ok t'" by (auto simp: sizes_ok_def t')
next
  assume a: "Insert_body h t key val = Retry t'"
  then obtain index where io: "IndexOf h t key = Inr index"
    by (auto simp: Insert_body_def split: sum.splits)
  from a io have inr: "index < length (dir t)"
    by (auto simp: Insert_body_def split: if_splits)
  from a io inr consider
      "RedistributeBucket h t (dir t ! index) = Inr t'"
    | "t' = t\<lparr>global_depth := global_depth t + 1, dir := dir t @ dir t\<rparr>"
    by (auto simp: Insert_body_def Let_def split: prod.splits if_splits sum.splits)
  then show "sizes_ok t'"
  proof cases
    case 1 then show ?thesis using ok by (rule RedistributeBucket_sizes_ok)
  next
    case 2 then show ?thesis using ok by (auto simp: sizes_ok_def)
  qed
qed

lemma Insert_sizes_ok:
  "sizes_ok t \<Longrightarrow>
     Insert h t key val \<noteq> Inl EmptyBucket \<and> (\<forall>t'. Insert h t key val = Inr t' \<longrightarrow> sizes_ok t')"
proof (induction h t key val rule: Insert.induct)
  case (1 h t key val)
  note ok = "1.prems"
  show ?case
  proof (cases "Insert_body h t key val")
    case (Done r)
    then have eq: "Insert h t key val = r" by (subst Insert.simps) simp
    from Done Insert_body_sizes_ok(1) [OF ok, of h key val] have "r \<noteq> Inl EmptyBucket" by auto
    moreover have "sizes_ok t'" if "r = Inr t'" for t'
      using Done that Insert_body_sizes_ok(2) [OF ok] by simp
    ultimately show ?thesis by (simp add: eq)
  next
    case (Retry t'')
    then have eq: "Insert h t key val = Insert h t'' key val" by (subst Insert.simps) simp
    from Retry have "sizes_ok t''" by (rule Insert_body_sizes_ok(3) [OF ok])
    with "1.IH" [OF Retry] show ?thesis by (simp add: eq)
  qed
qed

lemma Bucket_Remove_size [simp]: "size_b (snd (Bucket_Remove b k)) = size_b b"
  by (simp add: Bucket_Remove_def split: option.splits)

lemma ht_apply_sizes_ok:
  assumes "sizes_ok t"
  shows "ht_apply h t op \<noteq> Inl EmptyBucket \<and> (\<forall>t'. ht_apply h t op = Inr t' \<longrightarrow> sizes_ok t')"
proof (cases op)
  case (OpInsert k v)
  then show ?thesis using Insert_sizes_ok [OF assms] by simp
next
  case (OpRemove k)
  have "sizes_ok t'" if "Remove h t k = Inr (flag, t')" for flag t'
  proof -
    from that obtain index where io: "IndexOf h t k = Inr index"
      by (auto simp: Remove_def split: sum.splits)
    from that io have inr: "index < length (dir t)"
      by (auto simp: Remove_def split: if_splits)
    from that io inr have
      t': "t' = t\<lparr>heap := (heap t)(dir t ! index := snd (Bucket_Remove (heap t (dir t ! index)) k))\<rparr>"
      by (auto simp: Remove_def Let_def split: prod.splits)
    with assms show ?thesis by (auto simp: sizes_ok_def)
  qed
  moreover have "Remove h t k \<noteq> Inl EmptyBucket"
    by (auto simp: Remove_def IndexOf_def int_mask_def Let_def split: sum.splits if_splits prod.splits)
  ultimately show ?thesis using OpRemove by (auto split: sum.splits)
next
  case (OpFind k)
  have "Find h t k \<noteq> Inl EmptyBucket"
    by (auto simp: Find_def IndexOf_def int_mask_def split: sum.splits if_splits)
  with assms OpFind show ?thesis by (auto split: sum.splits)
qed

lemma run_ops_sizes_ok:
  "sizes_ok t \<Longrightarrow> run_ops h ops (Inr t) \<noteq> Inl EmptyBucket \<and>
     (\<forall>t'. run_ops h ops (Inr t) = Inr t' \<longrightarrow> sizes_ok t')"
proof (induction ops arbitrary: t)
  case Nil
  then show ?case by simp
next
  case (Cons op ops)
  show ?case
  proof (cases "ht_apply h t op")
    case (Inl e)
    with ht_apply_sizes_ok [OF Cons.prems, of h op] have "e \<noteq> EmptyBucket" by simp
    with Inl show ?thesis by (cases ops) simp_all
  next
    case (Inr t1)
    with ht_apply_sizes_ok [OF Cons.prems, of h op] have "sizes_ok t1" by simp
    from Cons.IH [OF this] Inr show ?thesis by simp
  qed
qed

lemma new_sizes_ok: "0 < n \<Longrightarrow> new_ExtendibleHashTable n = Inr t \<Longrightarrow> sizes_ok t"
  by (auto simp: new_ExtendibleHashTable_def sizes_ok_def new_Bucket_def)

text \<open>
  C10. On a table built with a bucket size of at least 1, no sequence of \<^verbatim>\<open>Insert\<close>,
  \<^verbatim>\<open>Remove\<close> and \<^verbatim>\<open>Find\<close> calls reaches the read of the first entry of an empty
  bucket in \<^verbatim>\<open>RedistributeBucket\<close>. In every table such a sequence returns, a bucket that
  refuses an entry (the only case in which \<^verbatim>\<open>Insert\<close> goes on to split it) is full and
  holds at least one entry.
\<close>

theorem split_bucket_not_empty:
  "0 < n \<Longrightarrow>
     run_ops h ops (new_ExtendibleHashTable n) \<noteq> Inl EmptyBucket \<and>
     (\<forall>t index b'.
        run_ops h ops (new_ExtendibleHashTable n) = Inr t \<and> IndexOf h t key = Inr index \<and>
        index < length (dir t) \<and>
        Bucket_Insert (heap t (dir t ! index)) key val = (False, b')
        \<longrightarrow> IsFull (heap t (dir t ! index)) \<and> list_b (heap t (dir t ! index)) \<noteq> [])"
proof -
  assume n: "0 < n"
  obtain t0 :: "('a, 'b) ExtendibleHashTable" where t0: "new_ExtendibleHashTable n = Inr t0"
    by (simp add: new_ExtendibleHashTable_def)
  from new_sizes_ok [OF n t0] have ok0: "sizes_ok t0" .
  note run = run_ops_sizes_ok [OF ok0, of h ops]
  have "IsFull (heap t (dir t ! index)) \<and> list_b (heap t (dir t ! index)) \<noteq> []"
    if "run_ops h ops (new_ExtendibleHashTable n) = Inr t" "index < length (dir t)"
      "Bucket_Insert (heap t (dir t ! index)) key val = (False, b')" for t index b'
  proof -
    from that(1) run have "sizes_ok t" by (simp add: t0)
    then show ?thesis using that(2,3) by (rule failed_Bucket_Insert_nonempty)
  qed
  with run show ?thesis by (auto simp: t0)
qed

theorem split_bucket_not_empty_witness:
  "(0::nat) < 2 \<and>
   run_ops std_hash_int [OpInsert 1 ''a'', OpInsert 2 ''b'', OpInsert 3 ''c'']
     (new_ExtendibleHashTable 2) \<noteq> Inl EmptyBucket \<and>
   (\<exists>t b'. run_ops std_hash_int [OpInsert 1 ''a'', OpInsert 2 ''b'']
              (new_ExtendibleHashTable 2) = Inr t \<and>
      IndexOf std_hash_int t 3 = Inr 0 \<and> 0 < length (dir t) \<and>
      Bucket_Insert (heap t (dir t ! 0)) 3 ''c'' = (False, b') \<and>
      IsFull (heap t (dir t ! 0)) \<and> list_b (heap t (dir t ! 0)) \<noteq> [])"
proof -
  have n: "(0::nat) < 2" by simp
  let ?ops = "[OpInsert 1 ''a'', OpInsert 2 ''b'']"
  obtain t b' where
    r: "run_ops std_hash_int ?ops (new_ExtendibleHashTable 2) = Inr t"
    and i: "IndexOf std_hash_int t 3 = Inr 0" and l: "0 < length (dir t)"
    and b: "Bucket_Insert (heap t (dir t ! 0)) 3 ''c'' = (False, b')"
    by (simp add: eval_defs)
  from split_bucket_not_empty [OF n, of std_hash_int ?ops 3 "''c''"] r i l b
  have "IsFull (heap t (dir t ! 0)) \<and> list_b (heap t (dir t ! 0)) \<noteq> []" by blast
  moreover
  from split_bucket_not_empty [OF n, of std_hash_int
      "[OpInsert 1 ''a'', OpInsert 2 ''b'', OpInsert 3 ''c'']" 0 "''d''"]
  have "run_ops std_hash_int [OpInsert 1 ''a'', OpInsert 2 ''b'', OpInsert 3 ''c'']
     (new_ExtendibleHashTable 2) \<noteq> Inl EmptyBucket" by blast
  ultimately show ?thesis using n r i l b by blast
qed

subsection \<open>Well-formed tables\<close>

text \<open>
  On a table built with a bucket size of at least 1, a sequence of calls either returns a
  well-formed table or ends in the overflow of the depth mask: no call indexes the
  directory out of range.
\<close>

lemma and_mask_less: "(x::nat) AND (2 ^ n - 1) < 2 ^ n"
  unfolding and_mask_mod by (rule mod_less_divisor) simp

lemma redistribute_loop_in_range:
  assumes "2 ^ n \<le> length d"
  shows "redistribute_loop h (2 ^ n - 1) pre pa items (kept, p, d) \<noteq> Inl e"
  using assms
proof (induction items arbitrary: kept p d)
  case Nil
  then show ?case by simp
next
  case (Cons kv items)
  obtain k v where kv: "kv = (k, v)" by (cases kv)
  have "h k AND (2 ^ n - 1) < length d"
    using and_mask_less [of "h k" n] Cons.prems by simp
  moreover have "2 ^ n \<le> length (d[i := pa])" for i using Cons.prems by simp
  ultimately show ?case
    unfolding kv using Cons.IH Cons.prems by (simp add: Let_def)
qed

lemma RedistributeBucket_wf:
  assumes wf: "table_wf t" and a: "a \<in> set (dir t)" and d: "depth_b (heap t a) \<noteq> global_depth t"
    and ne: "list_b (heap t a) \<noteq> []"
  shows "RedistributeBucket h t a = Inl ShiftOverflow \<or>
         (\<exists>t'. RedistributeBucket h t a = Inr t' \<and> table_wf t')"
proof (cases "RedistributeBucket h t a")
  case (Inr t')
  note sh = RedistributeBucket_shape [OF Inr]
  from wf have ok: "sizes_ok t" by (simp add: table_wf_def)
  from wf a d have lt: "depth_b (heap t a) + 1 \<le> global_depth t" by (auto simp: table_wf_def)
  have "depth_b (heap t' x) \<le> global_depth t'" if "x \<in> set (dir t')" for x
  proof -
    from that obtain i where i: "i < length (dir t')" "dir t' ! i = x"
      by (auto simp: in_set_conv_nth)
    with sh(3,5) have x: "x = dir t ! i \<or> x = next_addr t" by auto
    show ?thesis
    proof (cases "x = next_addr t \<or> x = a")
      case True
      with sh(1,6,7) lt show ?thesis by auto
    next
      case False
      with x i sh(3) have xin: "x \<in> set (dir t)" by auto
      from Inr False have "heap t' x = heap t x"
        by (auto simp: RedistributeBucket_def Let_def split: sum.splits list.splits prod.splits)
      with xin wf sh(1) show ?thesis by (simp add: table_wf_def)
    qed
  qed
  with wf sh(1,3) RedistributeBucket_sizes_ok [OF Inr ok] Inr show ?thesis
    by (simp add: table_wf_def)
next
  case (Inl e)
  let ?ld = "depth_b (heap t a) + 1"
  from wf a d have lt: "?ld \<le> global_depth t" by (auto simp: table_wf_def)
  then have "(2::nat) ^ ?ld \<le> 2 ^ global_depth t" by (rule power_increasing) simp
  with wf have len: "2 ^ ?ld \<le> length (dir t)" by (simp add: table_wf_def)
  have "e = ShiftOverflow"
  proof (cases "31 \<le> ?ld")
    case True
    with Inl show ?thesis by (simp add: RedistributeBucket_def Let_def int_mask_def)
  next
    case False
    from ne obtain first rest where l: "list_b (heap t a) = first # rest"
      by (cases "list_b (heap t a)") auto
    have "redistribute_loop h (2 ^ ?ld - 1) (h (fst first) AND (2 ^ (?ld - 1) - 1)) (next_addr t)
            (first # rest) ([], new_Bucket (bucket_size t) ?ld, dir t) = Inl e"
      using Inl False l
      by (auto simp: RedistributeBucket_def Let_def int_mask_def
               simp del: redistribute_loop.simps split: sum.splits prod.splits)
    with redistribute_loop_in_range [OF len] show ?thesis by blast
  qed
  with Inl show ?thesis by simp
qed

lemma Insert_body_wf:
  assumes wf: "table_wf t"
  shows "Insert_body h t key val = Done (Inl ShiftOverflow) \<or>
         (\<exists>t'. Insert_body h t key val = Done (Inr t') \<and> table_wf t') \<or>
         (\<exists>t'. Insert_body h t key val = Retry t' \<and> table_wf t')"
proof (cases "31 \<le> global_depth t")
  case True
  then show ?thesis by (simp add: Insert_body_def IndexOf_def int_mask_def)
next
  case False
  define index where "index = h key AND (2 ^ global_depth t - 1)"
  from False have io: "IndexOf h t key = Inr index"
    by (simp add: IndexOf_def int_mask_def index_def)
  from wf have inr: "index < length (dir t)"
    unfolding index_def using and_mask_less [of "h key" "global_depth t"] by (simp add: table_wf_def)
  then have ain: "dir t ! index \<in> set (dir t)" by simp
  from wf have ok: "sizes_ok t" by (simp add: table_wf_def)
  obtain flag b where bi: "Bucket_Insert (heap t (dir t ! index)) key val = (flag, b)"
    by (cases "Bucket_Insert (heap t (dir t ! index)) key val")
  show ?thesis
  proof (cases flag)
    case True
    with io inr bi have d: "Insert_body h t key val = Done (Inr (t\<lparr>heap := (heap t)(dir t ! index := b)\<rparr>))"
      by (simp add: Insert_body_def Let_def)
    from Insert_body_sizes_ok(2) [OF ok d] have "sizes_ok (t\<lparr>heap := (heap t)(dir t ! index := b)\<rparr>)" .
    moreover have "depth_b b = depth_b (heap t (dir t ! index))"
      using Bucket_Insert_depth [of "heap t (dir t ! index)" key val] bi by simp
    ultimately have "table_wf (t\<lparr>heap := (heap t)(dir t ! index := b)\<rparr>)"
      using wf ain by (auto simp: table_wf_def)
    with d show ?thesis by blast
  next
    case False
    show ?thesis
    proof (cases "depth_b (heap t (dir t ! index)) \<noteq> global_depth t")
      case True
      from failed_Bucket_Insert_nonempty [OF ok inr] bi False
      have ne: "list_b (heap t (dir t ! index)) \<noteq> []" by simp
      from RedistributeBucket_wf [OF wf ain True ne, of h] io inr bi False True
      show ?thesis by (auto simp: Insert_body_def Let_def)
    next
      case eq: False
      let ?t' = "t\<lparr>global_depth := global_depth t + 1, dir := dir t @ dir t\<rparr>"
      from io inr bi False eq have "Insert_body h t key val = Retry ?t'"
        by (simp add: Insert_body_def Let_def)
      moreover from wf have "table_wf ?t'" by (auto simp: table_wf_def sizes_ok_def)
      ultimately show ?thesis by blast
    qed
  qed
qed

lemma Insert_wf:
  "table_wf t \<Longrightarrow> Insert h t key val = Inl ShiftOverflow \<or>
     (\<exists>t'. Insert h t key val = Inr t' \<and> table_wf t')"
proof (induction h t key val rule: Insert.induct)
  case (1 h t key val)
  from Insert_body_wf [OF "1.prems", of h key val] show ?case
  proof (elim disjE exE conjE)
    assume "Insert_body h t key val = Done (Inl ShiftOverflow)"
    then show ?thesis by (subst Insert.simps) simp
  next
    fix t' assume "Insert_body h t key val = Done (Inr t')" "table_wf t'"
    then show ?thesis by (subst Insert.simps) simp
  next
    fix t' assume r: "Insert_body h t key val = Retry t'" and wf: "table_wf t'"
    from r have "Insert h t key val = Insert h t' key val" by (subst Insert.simps) simp
    with "1.IH" [OF r wf] show ?thesis by simp
  qed
qed

lemma Bucket_Remove_depth [simp]: "depth_b (snd (Bucket_Remove b k)) = depth_b b"
  by (simp add: Bucket_Remove_def split: option.splits)

lemma ht_apply_wf:
  assumes wf: "table_wf t"
  shows "ht_apply h t op = Inl ShiftOverflow \<or> (\<exists>t'. ht_apply h t op = Inr t' \<and> table_wf t')"
proof (cases op)
  case (OpInsert k v)
  with Insert_wf [OF wf, of h k v] show ?thesis by simp
next
  case (OpRemove k)
  show ?thesis
  proof (cases "31 \<le> global_depth t")
    case True
    with OpRemove show ?thesis by (simp add: Remove_def IndexOf_def int_mask_def)
  next
    case False
    define index where "index = h k AND (2 ^ global_depth t - 1)"
    from False have io: "IndexOf h t k = Inr index"
      by (simp add: IndexOf_def int_mask_def index_def)
    from wf have inr: "index < length (dir t)"
      unfolding index_def using and_mask_less [of "h k" "global_depth t"]
      by (simp add: table_wf_def)
    let ?t' = "t\<lparr>heap := (heap t)(dir t ! index := snd (Bucket_Remove (heap t (dir t ! index)) k))\<rparr>"
    from io inr OpRemove have r: "ht_apply h t op = Inr ?t'"
      by (simp add: Remove_def Let_def split: prod.splits)
    from wf inr have "table_wf ?t'" by (auto simp: table_wf_def sizes_ok_def)
    with r show ?thesis by blast
  qed
next
  case (OpFind k)
  show ?thesis
  proof (cases "31 \<le> global_depth t")
    case True
    with OpFind show ?thesis by (simp add: Find_def IndexOf_def int_mask_def)
  next
    case False
    from wf have "h k AND (2 ^ global_depth t - 1) < length (dir t)"
      using and_mask_less [of "h k" "global_depth t"] by (simp add: table_wf_def)
    with False OpFind wf show ?thesis by (simp add: Find_def IndexOf_def int_mask_def)
  qed
qed

lemma run_ops_wf:
  "table_wf t \<Longrightarrow>
     run_ops h ops (Inr t) = Inl ShiftOverflow \<or> (\<exists>t'. run_ops h ops (Inr t) = Inr t' \<and> table_wf t')"
proof (induction ops arbitrary: t)
  case Nil
  then show ?case by simp
next
  case (Cons op ops)
  from ht_apply_wf [OF Cons.prems, of h op] show ?case
  proof (elim disjE exE conjE)
    assume "ht_apply h t op = Inl ShiftOverflow"
    then show ?thesis by (cases ops) simp_all
  next
    fix t' assume "ht_apply h t op = Inr t'" "table_wf t'"
    with Cons.IH [of t'] show ?thesis by simp
  qed
qed

lemma new_table_wf: "0 < n \<Longrightarrow> new_ExtendibleHashTable n = Inr t \<Longrightarrow> table_wf t"
  by (auto simp: new_ExtendibleHashTable_def table_wf_def sizes_ok_def new_Bucket_def)

lemma reachable_tables:
  assumes "0 < n"
  shows "run_ops h ops (new_ExtendibleHashTable n) = Inl ShiftOverflow \<or>
     (\<exists>t. run_ops h ops (new_ExtendibleHashTable n) = Inr t \<and> table_wf t)"
proof -
  obtain t0 :: "('a, 'b) ExtendibleHashTable" where t0: "new_ExtendibleHashTable n = Inr t0"
    by (simp add: new_ExtendibleHashTable_def)
  from new_table_wf [OF assms t0] have "table_wf t0" .
  from run_ops_wf [OF this, of h ops] show ?thesis by (simp add: t0)
qed

subsection \<open>An insertion that does not return\<close>

lemma std_hash_int_0 [simp]: "std_hash_int 0 = 0" by (simp add: std_hash_int_def)
lemma std_hash_int_1 [simp]: "std_hash_int 1 = 1" by (simp add: std_hash_int_def)

lemma stuck_body:
  assumes "stuck t a"
  shows "Insert_body std_hash_int t 1 b = Done (Inl ShiftOverflow) \<or>
         (\<exists>t'. Insert_body std_hash_int t 1 b = Retry t' \<and> stuck t' a)"
proof (cases "global_depth t = 31")
  case True
  then show ?thesis by (simp add: Insert_body_def IndexOf_def int_mask_def)
next
  case False
  with assms have g: "global_depth t < 31" by (simp add: stuck_def)
  define i :: nat where "i = std_hash_int 1 AND (2 ^ global_depth t - 1)"
  have io: "IndexOf std_hash_int t 1 = Inr i"
    using g unfolding i_def IndexOf_def int_mask_def by simp
  have "i < 2 ^ global_depth t" unfolding i_def and_mask_mod by (rule mod_less_divisor) simp
  with assms have inr: "i < length (dir t)" and a0: "dir t ! i = 0" by (simp_all add: stuck_def)
  from assms have bi: "Bucket_Insert (heap t 0) 1 b = (False, heap t 0)"
    by (simp add: Bucket_Insert_def stuck_def IsFull_def)
  show ?thesis
  proof (cases "depth_b (heap t 0) = global_depth t")
    case True
    with io inr a0 bi have
      "Insert_body std_hash_int t 1 b = Retry (t\<lparr>global_depth := global_depth t + 1, dir := dir t @ dir t\<rparr>)"
      by (simp add: Insert_body_def Let_def)
    moreover from assms g True have "stuck (t\<lparr>global_depth := global_depth t + 1, dir := dir t @ dir t\<rparr>) a"
      by (simp add: stuck_def replicate_add [symmetric])
    ultimately show ?thesis by blast
  next
    case False
    with assms have d: "depth_b (heap t 0) < global_depth t" by (simp add: stuck_def)
    let ?ld = "depth_b (heap t 0) + 1"
    let ?t' = "t\<lparr>num_buckets := num_buckets t + 1, dir := dir t,
                  heap := (heap t)(0 := (heap t 0)\<lparr>depth_b := ?ld, list_b := [(0, a)]\<rparr>,
                                   next_addr t := new_Bucket (bucket_size t) ?ld),
                  next_addr := next_addr t + 1\<rparr>"
    from assms d g have "RedistributeBucket std_hash_int t 0 = Inr ?t'"
      by (simp add: RedistributeBucket_def Let_def int_mask_def stuck_def)
    with io inr a0 bi False have "Insert_body std_hash_int t 1 b = Retry ?t'"
      by (simp add: Insert_body_def Let_def)
    moreover from assms d have "stuck ?t' a" by (simp add: stuck_def)
    ultimately show ?thesis by blast
  qed
qed

lemma stuck_Insert: "stuck t a \<Longrightarrow> Insert std_hash_int t 1 b = Inl ShiftOverflow"
proof (induction "std_hash_int" t "1::int" b rule: Insert.induct)
  case (1 t b)
  from stuck_body [OF "1.prems", of b] show ?case
  proof
    assume "Insert_body std_hash_int t 1 b = Done (Inl ShiftOverflow)"
    then show ?thesis by (subst Insert.simps) simp
  next
    assume "\<exists>t'. Insert_body std_hash_int t 1 b = Retry t' \<and> stuck t' a"
    then obtain t' where r: "Insert_body std_hash_int t 1 b = Retry t'" and s: "stuck t' a" by blast
    from "1.hyps" [OF r s] r show ?thesis by (subst Insert.simps) simp
  qed
qed

text \<open>
  C8. With bucket size 1, after key 0 the insertion of key 1 does not return a table. Key 0
  never leaves its bucket (its index under every mask is 0, the pattern that stays), so no
  slot is ever pointed to the new bucket, the bucket stays full, and the loop alternates
  between doubling the directory and splitting until \<^verbatim>\<open>1 << global_depth_\<close> overflows.
\<close>

theorem Insert_second_key_overflows:
  "run_ops std_hash_int [OpInsert 0 a, OpInsert 1 b] (new_ExtendibleHashTable 1)
     = Inl ShiftOverflow"
proof -
  let ?t0 = "\<lparr>global_depth = 0, bucket_size = 1, num_buckets = 1, dir = [0],
          heap = (\<lambda>_. new_Bucket 1 0), next_addr = 1\<rparr> :: (int, 'a) ExtendibleHashTable"
  let ?t1 = "?t0\<lparr>heap := (heap ?t0)(0 := \<lparr>size_b = 1, depth_b = 0, list_b = [(0, a)]\<rparr>)\<rparr>"
  have i0: "Insert std_hash_int ?t0 0 a = Inr ?t1"
    by (simp add: Insert.simps Insert_body_def IndexOf_def int_mask_def Bucket_Insert_def
          IsFull_def new_Bucket_def)
  have "stuck ?t1 a" by (simp add: stuck_def)
  then have "Insert std_hash_int ?t1 1 b = Inl ShiftOverflow" by (rule stuck_Insert)
  with i0 show ?thesis by (simp add: new_ExtendibleHashTable_def)
qed

text \<open>
  C2. The round trip fails where the insertion does not return. On the table of bucket
  size 1 that holds key 0 (where \<^verbatim>\<open>Find(0)\<close> yields its value), \<^verbatim>\<open>Insert(1, b)\<close>
  followed by \<^verbatim>\<open>Find(1)\<close> yields no value: the insertion never reaches its
  \<^verbatim>\<open>break\<close> and ends in the overflow of the depth mask, so \<^verbatim>\<open>Find(1)\<close> is never
  called.
\<close>

theorem Insert_then_Find_no_value:
  "\<exists>t. run_ops std_hash_int [OpInsert 0 a] (new_ExtendibleHashTable 1) = Inr t \<and>
     Find std_hash_int t 0 = Inr (Some a) \<and>
     Insert_then_Find std_hash_int t 1 b = Inl ShiftOverflow \<and>
     Insert_then_Find std_hash_int t 1 b \<noteq> Inr (Some b)"
proof -
  let ?t0 = "\<lparr>global_depth = 0, bucket_size = 1, num_buckets = 1, dir = [0],
          heap = (\<lambda>_. new_Bucket 1 0), next_addr = 1\<rparr> :: (int, 'a) ExtendibleHashTable"
  let ?t1 = "?t0\<lparr>heap := (heap ?t0)(0 := \<lparr>size_b = 1, depth_b = 0, list_b = [(0, a)]\<rparr>)\<rparr>"
  have r: "run_ops std_hash_int [OpInsert 0 a] (new_ExtendibleHashTable 1) = Inr ?t1"
    by (simp add: Insert.simps Insert_body_def IndexOf_def int_mask_def Bucket_Insert_def
          IsFull_def new_Bucket_def new_ExtendibleHashTable_def)
  have f: "Find std_hash_int ?t1 0 = Inr (Some a)"
    by (simp add: Find_def IndexOf_def int_mask_def Bucket_Find_def)
  have "stuck ?t1 a" by (simp add: stuck_def)
  then have "Insert std_hash_int ?t1 1 b = Inl ShiftOverflow" by (rule stuck_Insert)
  then have i: "Insert_then_Find std_hash_int ?t1 1 b = Inl ShiftOverflow"
    by (simp add: Insert_then_Find_def)
  from r f i show ?thesis by (intro exI [of _ ?t1]) simp
qed

subsection \<open>Stale directory slots after a split\<close>

text \<open>
  C1. \<^verbatim>\<open>RedistributeBucket\<close> points to the new bucket only the slots
  \<^verbatim>\<open>dir_[hash(key) & mask]\<close> of the entries it moves. With bucket size 2, after keys 0, 2
  and 1 the directory is \<open>[0, 0, 2, 0]\<close> at global depth 2: slots 0, 1 and 3 point to one
  bucket of local depth 2 and do not agree on their low two bits. After keys 0, 1, 2, 4, 8,
  7 and 5 the key 7 is stored in a bucket that slot 7 does not point to, and
  \<^verbatim>\<open>Find(7)\<close> finds nothing.
\<close>

theorem split_leaves_stale_slots:
  "(case run_ops std_hash_int [OpInsert 0 ''a'', OpInsert 2 ''b'', OpInsert 1 ''c'']
          (new_ExtendibleHashTable 2) of
      Inl e \<Rightarrow> False
    | Inr t \<Rightarrow> dir t = [0, 0, 2, 0] \<and> global_depth t = 2 \<and> depth_b (heap t 0) = 2 \<and>
        \<not> aliasing_invariant t) \<and>
   (case run_ops std_hash_int
           [OpInsert 0 ''a'', OpInsert 1 ''b'', OpInsert 2 ''c'', OpInsert 4 ''d'',
            OpInsert 8 ''e'', OpInsert 7 ''f'', OpInsert 5 ''g'']
          (new_ExtendibleHashTable 2) of
      Inl e \<Rightarrow> False
    | Inr t \<Rightarrow> Find std_hash_int t 7 = Inr None)"
  by (simp add: eval_defs aliasing_invariant_def slots_agree_def)

subsection \<open>Construction\<close>

text \<open>
  C4, as the claim states it, fails: construction with bucket size 0 returns a table.
\<close>

theorem construction_zero_not_rejected:
  "\<exists>t :: (int, int) ExtendibleHashTable.
     new_ExtendibleHashTable 0 = Inr t \<and> bucket_size t = 0"
  by (simp add: new_ExtendibleHashTable_def)

text \<open>
  C4, amended. Construction never fails: for every bucket size \<open>n\<close>, zero included, it
  returns a table of global depth 0 whose single slot points to an empty bucket of local
  depth 0 and capacity \<open>n\<close>, in which no key is found. On the table built with bucket size
  0 every \<^verbatim>\<open>Insert\<close> then reads the first entry of an empty bucket.
\<close>

theorem construction_never_fails:
  "(\<exists>t. new_ExtendibleHashTable n = Inr t \<and> global_depth t = 0 \<and> bucket_size t = n \<and>
        num_buckets t = 1 \<and> length (dir t) = 1 \<and> heap t (dir t ! 0) = new_Bucket n 0 \<and>
        Find h t key = Inr None) \<and>
   (\<exists>t. new_ExtendibleHashTable 0 = Inr t \<and> Insert h t key val = Inl EmptyBucket)"
  by (simp add: eval_defs)

section \<open>LRU-K replacer (lru\_k\_replacer.cpp)\<close>

text \<open>
  The two \<^verbatim>\<open>throw\<close> statements of the file are the values of \<open>exn\<close>. A call has one of
  three outcomes: it returns a value and leaves a replacer (\<open>Returns\<close>), it throws and
  leaves the replacer as it is at the throw (\<open>Throws\<close>), or it runs into undefined
  behaviour (\<open>Undefined\<close>: \<^verbatim>\<open>front()\<close> or \<^verbatim>\<open>pop()\<close> on an empty \<^verbatim>\<open>std::queue\<close>),
  after which there is no replacer to speak of.
\<close>

datatype exn = FrameInvalid | RemoveNonEvictable

text \<open>
  Modelled from the spec: the header \<^verbatim>\<open>lru_k_replacer.h\<close> with the declaration of the
  members is not among the sources. The spec's tracked frame holds the access timestamps,
  oldest first, and a boolean evictable flag (\<^verbatim>\<open>time_\<close>, a \<^verbatim>\<open>std::queue<size_t>\<close>
  whose front is the head of the list, and \<^verbatim>\<open>evictable_\<close>); its replacer state is a
  mapping from frame id to tracked frame (\<^verbatim>\<open>hash_\<close>), a logical clock
  (\<^verbatim>\<open>current_timestamp_\<close>) and a running count of evictable frames (\<^verbatim>\<open>curr_size_\<close>),
  besides the two constructor arguments (\<^verbatim>\<open>replacer_size_\<close>, \<^verbatim>\<open>k_\<close>). The members are
  written without the final underscore, with the suffixes \<open>_f\<close> and \<open>_r\<close> where the plain
  name is taken.

  \<^verbatim>\<open>hash_\<close> is a \<^verbatim>\<open>std::unordered_map\<close>. It is an association list with distinct keys:
  the order of the list is the order in which the loop of \<^verbatim>\<open>Evict\<close> visits the entries,
  which C++ leaves unspecified. No theorem below depends on that order. Frame ids are
  \<^verbatim>\<open>frame_id_t\<close>, a signed 32-bit integer (the code compares them with
  \<^verbatim>\<open>static_cast<int>(replacer_size_)\<close> and uses \<open>-1\<close> for ``no frame''); they are
  integers here. The \<^verbatim>\<open>size_t\<close> clock and count are natural numbers; the one place where
  a \<^verbatim>\<open>size_t\<close> can wrap around without \<open>2\<^sup>6\<^sup>4\<close> calls, the decrement of the count, has
  the wrap-around written out (\<open>size_t_dec\<close>).
\<close>

record Frame =
  time_f :: "nat list"
  evictable_f :: bool

record LRUKReplacer =
  hash_r :: "(int \<times> Frame) list"
  current_timestamp :: nat
  curr_size :: nat
  replacer_size :: nat
  k_r :: nat

datatype 'a outcome = Returns 'a LRUKReplacer | Throws exn LRUKReplacer | Undefined

text \<open>
  Modelled from the spec: the value \<^verbatim>\<open>hash_[frame_id]\<close> creates for a frame id that is
  not tracked yet, and the members a new replacer starts with, are fixed by the missing
  header. In the spec a frame is created by its first recorded access with an empty
  history, the running count equals the number of tracked frames whose flag is true while
  \<^verbatim>\<open>RecordAccess\<close> never touches the count, and frames become evictable by
  \<^verbatim>\<open>SetEvictable\<close>: a created frame is not evictable. A new replacer tracks no frame,
  its count is therefore 0, and its clock starts at 0.
\<close>

definition default_Frame :: Frame where
  "default_Frame = \<lparr>time_f = [], evictable_f = False\<rparr>"

definition new_LRUKReplacer :: "nat \<Rightarrow> nat \<Rightarrow> LRUKReplacer" where
  "new_LRUKReplacer num_frames k =
     \<lparr>hash_r = [], current_timestamp = 0, curr_size = 0, replacer_size = num_frames, k_r = k\<rparr>"

text \<open>
  \<^verbatim>\<open>static_cast<int>(replacer_size_)\<close>: the low 32 bits of the \<^verbatim>\<open>size_t\<close>, read as a
  signed number.
\<close>

definition static_cast_int :: "nat \<Rightarrow> int" where
  "static_cast_int n = sint (word_of_nat n :: 32 word)"

definition size_t_dec :: "nat \<Rightarrow> nat" where
  "size_t_dec n = (if n = 0 then 2 ^ 64 - 1 else n - 1)"

text \<open>
  \<^verbatim>\<open>hash_[f]\<close> read as a value. \<^verbatim>\<open>CompareFrame\<close> is only called from \<^verbatim>\<open>Evict\<close>, on
  two keys of \<^verbatim>\<open>hash_\<close>, so its \<^verbatim>\<open>hash_[f1]\<close> and \<^verbatim>\<open>hash_[f2]\<close> never insert.
\<close>

definition frame_at :: "LRUKReplacer \<Rightarrow> int \<Rightarrow> Frame" where
  "frame_at r f = (case map_of (hash_r r) f of Some fr \<Rightarrow> fr | None \<Rightarrow> default_Frame)"

definition CompareFrame :: "LRUKReplacer \<Rightarrow> int \<Rightarrow> int \<Rightarrow> bool option" where
  "CompareFrame r f1 f2 =
     (let t1 = time_f (frame_at r f1); t2 = time_f (frame_at r f2) in
      if length t1 < k_r r \<and> length t2 = k_r r then Some True
      else if length t1 = k_r r \<and> length t2 < k_r r then Some False
      else (case t1 of
              [] \<Rightarrow> None
            | a # _ \<Rightarrow> (case t2 of [] \<Rightarrow> None | b # _ \<Rightarrow> Some (a < b))))"

text \<open>\<^verbatim>\<open>LRUKReplacer::Remove\<close> (the table has a \<^verbatim>\<open>Remove\<close> of its own).\<close>

definition LRUKReplacer_Remove :: "LRUKReplacer \<Rightarrow> int \<Rightarrow> unit outcome" where
  "LRUKReplacer_Remove r frame_id =
     (case map_of (hash_r r) frame_id of
        None \<Rightarrow> Returns () r
      | Some fr \<Rightarrow>
          if \<not> evictable_f fr then Throws RemoveNonEvictable r
          else Returns () (r\<lparr>hash_r := AList.delete frame_id (hash_r r),
                             curr_size := size_t_dec (curr_size r)\<rparr>))"

text \<open>
  The loop of \<^verbatim>\<open>Evict\<close> over the entries of \<^verbatim>\<open>hash_\<close>; \<open>frame_id\<close> is the candidate
  so far, \<open>-1\<close> while there is none.
\<close>

fun Evict_loop :: "LRUKReplacer \<Rightarrow> (int \<times> Frame) list \<Rightarrow> int \<Rightarrow> int option" where
  "Evict_loop r [] frame_id = Some frame_id"
| "Evict_loop r ((k, v) # rest) frame_id =
     (if evictable_f v then
        (if frame_id = - 1 then Evict_loop r rest k
         else (case CompareFrame r k frame_id of
                 None \<Rightarrow> None
               | Some c \<Rightarrow> Evict_loop r rest (if c then k else frame_id)))
      else Evict_loop r rest frame_id)"

definition Evict :: "LRUKReplacer \<Rightarrow> (int option) outcome" where
  "Evict r =
     (case Evict_loop r (hash_r r) (- 1) of
        None \<Rightarrow> Undefined
      | Some frame_id \<Rightarrow>
          if frame_id \<noteq> - 1 then
            (case LRUKReplacer_Remove r frame_id of
               Returns u r' \<Rightarrow> Returns (Some frame_id) r'
             | Throws e r' \<Rightarrow> Throws e r'
             | Undefined \<Rightarrow> Undefined)
          else Returns None r)"

text \<open>
  \<^verbatim>\<open>RecordAccess\<close>. The guard comes first; \<^verbatim>\<open>hash_[frame_id]\<close> then creates the frame
  when it is new, a full history loses its oldest entry, and the clock value is appended
  and advanced.
\<close>

definition RecordAccess :: "LRUKReplacer \<Rightarrow> int \<Rightarrow> unit outcome" where
  "RecordAccess r frame_id =
     (if frame_id > static_cast_int (replacer_size r) then Throws FrameInvalid r
      else
        (let fr = frame_at r frame_id; ts = current_timestamp r in
         if length (time_f fr) = k_r r then
           (case time_f fr of
              [] \<Rightarrow> Undefined
            | oldest # q \<Rightarrow>
                Returns () (r\<lparr>hash_r := AList.update frame_id (fr\<lparr>time_f := q @ [ts]\<rparr>) (hash_r r),
                              current_timestamp := ts + 1\<rparr>))
         else
           Returns () (r\<lparr>hash_r := AList.update frame_id (fr\<lparr>time_f := time_f fr @ [ts]\<rparr>) (hash_r r),
                         current_timestamp := ts + 1\<rparr>)))"

definition SetEvictable :: "LRUKReplacer \<Rightarrow> int \<Rightarrow> bool \<Rightarrow> LRUKReplacer" where
  "SetEvictable r frame_id set_evictable =
     (case map_of (hash_r r) frame_id of
        None \<Rightarrow> r
      | Some fr \<Rightarrow>
          (let pre = evictable_f fr;
               r' = r\<lparr>hash_r := AList.update frame_id (fr\<lparr>evictable_f := set_evictable\<rparr>) (hash_r r)\<rparr>
           in if pre \<and> \<not> set_evictable then r'\<lparr>curr_size := size_t_dec (curr_size r)\<rparr>
              else if \<not> pre \<and> set_evictable then r'\<lparr>curr_size := curr_size r + 1\<rparr>
              else r'))"

definition Size :: "LRUKReplacer \<Rightarrow> nat" where
  "Size r = curr_size r"

subsection \<open>Sequences of calls\<close>

text \<open>
  \<open>run\<close> executes a list of calls. A call that throws leaves its replacer to the next
  call; undefined behaviour ends the run with \<open>None\<close>. The result lists the frames the
  \<^verbatim>\<open>Evict\<close> calls returned, in order.
\<close>

datatype lru_op = OpRecordAccess int | OpSetEvictable int bool | OpEvict | OpRemove int

fun apply_op :: "LRUKReplacer \<Rightarrow> lru_op \<Rightarrow> (int option) outcome" where
  "apply_op r (OpRecordAccess f) =
     (case RecordAccess r f of
        Returns u r' \<Rightarrow> Returns None r' | Throws e r' \<Rightarrow> Throws e r' | Undefined \<Rightarrow> Undefined)"
| "apply_op r (OpSetEvictable f b) = Returns None (SetEvictable r f b)"
| "apply_op r OpEvict = Evict r"
| "apply_op r (OpRemove f) =
     (case LRUKReplacer_Remove r f of
        Returns u r' \<Rightarrow> Returns None r' | Throws e r' \<Rightarrow> Throws e r' | Undefined \<Rightarrow> Undefined)"

fun run :: "LRUKReplacer \<Rightarrow> lru_op list \<Rightarrow> (int list \<times> LRUKReplacer) option" where
  "run r [] = Some ([], r)"
| "run r (op # ops) =
     (case apply_op r op of
        Undefined \<Rightarrow> None
      | Throws e r' \<Rightarrow> run r' ops
      | Returns x r' \<Rightarrow>
          (case run r' ops of
             None \<Rightarrow> None
           | Some (es, r'') \<Rightarrow> Some ((case x of None \<Rightarrow> es | Some f \<Rightarrow> f # es), r'')))"

subsection \<open>Predicates of the statements\<close>

text \<open>The number of tracked frames whose evictable flag is true.\<close>

definition evictable_count :: "LRUKReplacer \<Rightarrow> nat" where
  "evictable_count r = length (filter (\<lambda>(f, fr). evictable_f fr) (hash_r r))"

definition is_evictable :: "LRUKReplacer \<Rightarrow> int \<Rightarrow> bool" where
  "is_evictable r f = (case map_of (hash_r r) f of Some fr \<Rightarrow> evictable_f fr | None \<Rightarrow> False)"

text \<open>
  The backward k-distance in the words of the spec: infinite for a frame with fewer than K
  recorded accesses, otherwise the current tick minus the tick of its K-th most recent
  access.
\<close>

definition k_distance :: "LRUKReplacer \<Rightarrow> Frame \<Rightarrow> enat" where
  "k_distance r fr =
     (if length (time_f fr) < k_r r then \<infinity>
      else enat (current_timestamp r - time_f fr ! (length (time_f fr) - k_r r)))"

text \<open>
  The states \<^verbatim>\<open>Evict\<close> is specified on: \<^verbatim>\<open>hash_\<close> is a map, no tracked frame has the
  id \<open>-1\<close> that \<^verbatim>\<open>Evict\<close> uses for ``none'', and every history holds between 1 and K
  timestamps. \<open>run_replacer_ok\<close> shows that every run with K at least 1 and non-negative
  frame ids stays in these states.
\<close>

definition entry_ok :: "nat \<Rightarrow> int \<times> Frame \<Rightarrow> bool" where
  "entry_ok k p = (fst p \<noteq> - 1 \<and> time_f (snd p) \<noteq> [] \<and> length (time_f (snd p)) \<le> k)"

definition replacer_ok :: "LRUKReplacer \<Rightarrow> bool" where
  "replacer_ok r = (distinct (map fst (hash_r r)) \<and> list_all (entry_ok (k_r r)) (hash_r r))"

definition frame_ok :: "LRUKReplacer \<Rightarrow> int \<Rightarrow> bool" where
  "frame_ok r f = (time_f (frame_at r f) \<noteq> [] \<and> length (time_f (frame_at r f)) \<le> k_r r)"

definition rank :: "LRUKReplacer \<Rightarrow> int \<Rightarrow> bool \<times> nat" where
  "rank r f = (length (time_f (frame_at r f)) = k_r r, hd (time_f (frame_at r f)))"

definition size_inv :: "LRUKReplacer \<Rightarrow> bool" where
  "size_inv r = (distinct (map fst (hash_r r)) \<and> curr_size r = evictable_count r)"

fun op_ok :: "lru_op \<Rightarrow> bool" where
  "op_ok (OpRecordAccess f) = (0 \<le> f)"
| "op_ok (OpSetEvictable f b) = True"
| "op_ok OpEvict = True"
| "op_ok (OpRemove f) = True"

lemmas lru_defs = RecordAccess_def new_LRUKReplacer_def static_cast_int_def frame_at_def
  default_Frame_def SetEvictable_def Evict_def LRUKReplacer_Remove_def CompareFrame_def
  size_t_dec_def Size_def Let_def

subsection \<open>The count of evictable frames\<close>

lemma filter_update_absent:
  "map_of al k = None \<Longrightarrow>
     filter P (AList.update k v al) = filter P al @ (if P (k, v) then [(k, v)] else [])"
  by (induction al) (auto split: if_splits)

lemma length_filter_update_present:
  "distinct (map fst al) \<Longrightarrow> map_of al k = Some v0 \<Longrightarrow>
     length (filter P (AList.update k v al)) + (if P (k, v0) then 1 else 0)
       = length (filter P al) + (if P (k, v) then 1 else 0)"
proof (induction al)
  case Nil
  then show ?case by simp
next
  case (Cons p al)
  obtain k' v' where p: "p = (k', v')" by (cases p)
  show ?case
  proof (cases "k' = k")
    case True
    with Cons.prems p have "v' = v0" by simp
    with True p show ?thesis by simp
  next
    case False
    with Cons.prems p have "distinct (map fst al)" "map_of al k = Some v0" by simp_all
    from Cons.IH [OF this] False p show ?thesis by simp
  qed
qed

lemma length_filter_delete_present:
  "distinct (map fst al) \<Longrightarrow> map_of al k = Some v0 \<Longrightarrow>
     length (filter P (AList.delete k al)) + (if P (k, v0) then 1 else 0) = length (filter P al)"
proof (induction al)
  case Nil
  then show ?case by simp
next
  case (Cons p al)
  obtain k' v' where p: "p = (k', v')" by (cases p)
  show ?case
  proof (cases "k' = k")
    case True
    with Cons.prems p have v: "v' = v0" and "k \<notin> fst ` set al" by auto
    then have "AList.delete k al = al" by (simp add: delete_id)
    with True p v show ?thesis by simp
  next
    case False
    with Cons.prems p have "distinct (map fst al)" "map_of al k = Some v0" by simp_all
    from Cons.IH [OF this] False p show ?thesis by simp
  qed
qed

lemma RecordAccess_Throws: "RecordAccess r f = Throws e r' \<Longrightarrow>
   e = FrameInvalid \<and> r' = r \<and> static_cast_int (replacer_size r) < f"
  by (auto simp: RecordAccess_def Let_def split: if_splits list.splits)

lemma RecordAccess_Returns:
  assumes "RecordAccess r f = Returns u r'"
  shows "\<exists>fr'. hash_r r' = AList.update f fr' (hash_r r) \<and>
           evictable_f fr' = evictable_f (frame_at r f) \<and> time_f fr' \<noteq> [] \<and>
           (length (time_f (frame_at r f)) \<le> k_r r \<longrightarrow> length (time_f fr') \<le> max 1 (k_r r)) \<and>
           current_timestamp r' = current_timestamp r + 1 \<and>
           curr_size r' = curr_size r \<and> k_r r' = k_r r \<and> replacer_size r' = replacer_size r \<and>
           f \<le> static_cast_int (replacer_size r)"
proof (cases "length (time_f (frame_at r f)) = k_r r")
  case True
  with assms obtain oldest q where q: "time_f (frame_at r f) = oldest # q"
    and le: "f \<le> static_cast_int (replacer_size r)"
    and r': "r' = r\<lparr>hash_r := AList.update f ((frame_at r f)\<lparr>time_f := q @ [current_timestamp r]\<rparr>) (hash_r r),
                   current_timestamp := current_timestamp r + 1\<rparr>"
    by (auto simp: RecordAccess_def Let_def split: if_splits list.splits)
  from True q have "length (q @ [current_timestamp r]) \<le> max 1 (k_r r)" by simp
  then show ?thesis using le by (intro exI [of _ "(frame_at r f)\<lparr>time_f := q @ [current_timestamp r]\<rparr>"]) (simp add: r')
next
  case False
  with assms have le: "f \<le> static_cast_int (replacer_size r)"
    and r': "r' = r\<lparr>hash_r := AList.update f ((frame_at r f)\<lparr>time_f := time_f (frame_at r f) @ [current_timestamp r]\<rparr>) (hash_r r),
                   current_timestamp := current_timestamp r + 1\<rparr>"
    by (auto simp: RecordAccess_def Let_def split: if_splits list.splits)
  from False have "length (time_f (frame_at r f)) \<le> k_r r \<longrightarrow>
      length (time_f (frame_at r f) @ [current_timestamp r]) \<le> max 1 (k_r r)" by simp
  then show ?thesis using le
    by (intro exI [of _ "(frame_at r f)\<lparr>time_f := time_f (frame_at r f) @ [current_timestamp r]\<rparr>"]) (simp add: r')
qed

lemma RecordAccess_size_inv:
  assumes "RecordAccess r f = Returns u r'" and inv: "size_inv r"
  shows "size_inv r'"
proof -
  from RecordAccess_Returns [OF assms(1)]
  obtain fr' where h: "hash_r r' = AList.update f fr' (hash_r r)"
    and ev: "evictable_f fr' = evictable_f (frame_at r f)" and cs: "curr_size r' = curr_size r"
    by blast
  from inv have d: "distinct (map fst (hash_r r))" by (simp add: size_inv_def)
  have "evictable_count r' = evictable_count r"
  proof (cases "map_of (hash_r r) f")
    case None
    then have "evictable_f fr' = False" using ev by (simp add: frame_at_def default_Frame_def)
    with None show ?thesis by (simp add: evictable_count_def h filter_update_absent)
  next
    case (Some fr)
    then have "evictable_f fr' = evictable_f fr" using ev by (simp add: frame_at_def)
    with length_filter_update_present [OF d Some, of "\<lambda>(f, fr). evictable_f fr" fr']
    show ?thesis by (simp add: evictable_count_def h)
  qed
  with inv cs d show ?thesis by (simp add: size_inv_def h distinct_update)
qed

lemma SetEvictable_size_inv:
  assumes inv: "size_inv r"
  shows "size_inv (SetEvictable r f b)"
proof (cases "map_of (hash_r r) f")
  case None
  with inv show ?thesis by (simp add: SetEvictable_def)
next
  case (Some fr)
  from inv have d: "distinct (map fst (hash_r r))" and cs: "curr_size r = evictable_count r"
    by (simp_all add: size_inv_def)
  note len = length_filter_update_present [OF d Some, of "\<lambda>(f, fr). evictable_f fr"
      "fr\<lparr>evictable_f := b\<rparr>"]
  have pos: "0 < evictable_count r" if "evictable_f fr"
  proof -
    from Some have "(f, fr) \<in> set (hash_r r)" by (rule map_of_SomeD)
    with that have "(f, fr) \<in> set (filter (\<lambda>(f, fr). evictable_f fr) (hash_r r))" by simp
    then show ?thesis unfolding evictable_count_def by (auto simp: length_greater_0_conv simp del: set_filter)
  qed
  show ?thesis
    using len cs d pos Some
    by (auto simp: SetEvictable_def size_inv_def evictable_count_def Let_def size_t_dec_def
          distinct_update)
qed

lemma Remove_outcome:
  "LRUKReplacer_Remove r f \<noteq> Undefined"
  "LRUKReplacer_Remove r f = Throws e r' \<Longrightarrow> r' = r \<and> e = RemoveNonEvictable \<and> (\<exists>fr. map_of (hash_r r) f = Some fr \<and> \<not> evictable_f fr)"
  by (auto simp: LRUKReplacer_Remove_def split: option.splits if_splits)

lemma Remove_size_inv:
  assumes "LRUKReplacer_Remove r f = Returns u r'" and inv: "size_inv r"
  shows "size_inv r'"
proof (cases "map_of (hash_r r) f")
  case None
  with assms show ?thesis by (simp add: LRUKReplacer_Remove_def)
next
  case (Some fr)
  from inv have d: "distinct (map fst (hash_r r))" and cs: "curr_size r = evictable_count r"
    by (simp_all add: size_inv_def)
  from assms(1) Some have ev: "evictable_f fr"
    and r': "r' = r\<lparr>hash_r := AList.delete f (hash_r r), curr_size := size_t_dec (curr_size r)\<rparr>"
    by (auto simp: LRUKReplacer_Remove_def split: if_splits)
  from length_filter_delete_present [OF d Some, of "\<lambda>(f, fr). evictable_f fr"] ev
  have "length (filter (\<lambda>(f, fr). evictable_f fr) (AList.delete f (hash_r r))) + 1
          = length (filter (\<lambda>(f, fr). evictable_f fr) (hash_r r))" by simp
  with cs d show ?thesis
    by (auto simp: size_inv_def r' size_t_dec_def distinct_delete evictable_count_def)
qed

lemma Evict_cases:
  assumes "Evict r = Returns x r'"
  shows "(x = None \<and> r' = r) \<or> (\<exists>f. x = Some f \<and> f \<noteq> - 1 \<and> LRUKReplacer_Remove r f = Returns () r')"
proof -
  from assms obtain c where c: "Evict_loop r (hash_r r) (- 1) = Some c"
    by (auto simp: Evict_def split: option.splits)
  show ?thesis
  proof (cases "c = - 1")
    case True
    with assms c show ?thesis by (simp add: Evict_def)
  next
    case False
    with assms c have "x = Some c \<and> LRUKReplacer_Remove r c = Returns () r'"
      by (auto simp: Evict_def split: outcome.splits)
    with False show ?thesis by blast
  qed
qed

lemma Evict_Throws: "Evict r = Throws e r' \<Longrightarrow> r' = r"
  by (auto simp: Evict_def split: option.splits if_splits outcome.splits dest: Remove_outcome(2))

lemma apply_op_size_inv:
  assumes inv: "size_inv r"
  shows "apply_op r op = Returns x r' \<Longrightarrow> size_inv r'"
    and "apply_op r op = Throws e r' \<Longrightarrow> size_inv r'"
proof -
  show "apply_op r op = Returns x r' \<Longrightarrow> size_inv r'"
  proof (cases op)
    case (OpRecordAccess f)
    assume "apply_op r op = Returns x r'"
    with OpRecordAccess have "RecordAccess r f = Returns () r'" by (auto split: outcome.splits)
    then show ?thesis using inv by (rule RecordAccess_size_inv)
  next
    case (OpSetEvictable f b)
    assume "apply_op r op = Returns x r'"
    with OpSetEvictable inv show ?thesis by (auto simp: SetEvictable_size_inv)
  next
    case OpEvict
    assume "apply_op r op = Returns x r'"
    with OpEvict have "Evict r = Returns x r'" by simp
    from Evict_cases [OF this] inv show ?thesis by (auto dest: Remove_size_inv)
  next
    case (OpRemove f)
    assume "apply_op r op = Returns x r'"
    with OpRemove have "LRUKReplacer_Remove r f = Returns () r'" by (auto split: outcome.splits)
    then show ?thesis using inv by (rule Remove_size_inv)
  qed
  show "apply_op r op = Throws e r' \<Longrightarrow> size_inv r'"
  proof (cases op)
    case (OpRecordAccess f)
    assume "apply_op r op = Throws e r'"
    with OpRecordAccess have "RecordAccess r f = Throws e r'" by (auto split: outcome.splits)
    with inv show ?thesis by (auto dest: RecordAccess_Throws)
  next
    case (OpSetEvictable f b)
    assume "apply_op r op = Throws e r'"
    with OpSetEvictable show ?thesis by simp
  next
    case OpEvict
    assume "apply_op r op = Throws e r'"
    with OpEvict inv show ?thesis by (auto dest: Evict_Throws)
  next
    case (OpRemove f)
    assume "apply_op r op = Throws e r'"
    with OpRemove have "LRUKReplacer_Remove r f = Throws e r'" by (auto split: outcome.splits)
    with inv show ?thesis by (auto dest: Remove_outcome(2))
  qed
qed

lemma run_size_inv: "size_inv r \<Longrightarrow> run r ops = Some (es, r') \<Longrightarrow> size_inv r'"
proof (induction ops arbitrary: r es)
  case Nil
  then show ?case by simp
next
  case (Cons op ops)
  show ?case
  proof (cases "apply_op r op")
    case (Returns x r1)
    with Cons.prems obtain es1 where "run r1 ops = Some (es1, r')"
      by (auto split: option.splits)
    moreover from Returns Cons.prems(1) have "size_inv r1" by (rule apply_op_size_inv(1)[rotated])
    ultimately show ?thesis by (rule Cons.IH [rotated])
  next
    case (Throws e r1)
    with Cons.prems have "run r1 ops = Some (es, r')" by simp
    moreover from Throws Cons.prems(1) have "size_inv r1" by (rule apply_op_size_inv(2)[rotated])
    ultimately show ?thesis by (rule Cons.IH [rotated])
  next
    case Undefined
    with Cons.prems show ?thesis by simp
  qed
qed

text \<open>
  C7. After every sequence of calls on a new replacer, \<^verbatim>\<open>Size()\<close> is the number of
  tracked frames whose evictable flag is true; and each call (\<^verbatim>\<open>RecordAccess\<close>,
  \<^verbatim>\<open>SetEvictable\<close>, \<^verbatim>\<open>Evict\<close>, \<^verbatim>\<open>Remove\<close>), whether it returns or throws, leaves
  the equality as it found it.
\<close>

theorem Size_counts_evictable:
  "(run (new_LRUKReplacer n k) ops = Some (es, r) \<longrightarrow> Size r = evictable_count r) \<and>
   (distinct (map fst (hash_r r0)) \<and> Size r0 = evictable_count r0 \<and>
      (apply_op r0 op = Returns x r1 \<or> apply_op r0 op = Throws e r1)
      \<longrightarrow> Size r1 = evictable_count r1)"
proof -
  have "size_inv (new_LRUKReplacer n k)"
    by (simp add: size_inv_def new_LRUKReplacer_def evictable_count_def)
  from run_size_inv [OF this] have "run (new_LRUKReplacer n k) ops = Some (es, r) \<longrightarrow> Size r = evictable_count r"
    by (auto simp: size_inv_def Size_def)
  moreover have "Size r1 = evictable_count r1"
    if "distinct (map fst (hash_r r0))" "Size r0 = evictable_count r0"
      "apply_op r0 op = Returns x r1 \<or> apply_op r0 op = Throws e r1"
  proof -
    from that(1,2) have "size_inv r0" by (simp add: size_inv_def Size_def)
    from apply_op_size_inv [OF this] that(3) have "size_inv r1" by blast
    then show ?thesis by (simp add: size_inv_def Size_def)
  qed
  ultimately show ?thesis by blast
qed

theorem Size_counts_evictable_witness:
  "(\<exists>r. run (new_LRUKReplacer 7 2)
          [OpRecordAccess 1, OpRecordAccess 2, OpRecordAccess 3, OpSetEvictable 1 True,
           OpSetEvictable 2 True, OpSetEvictable 3 True, OpEvict, OpSetEvictable 5 True,
           OpRemove 3, OpRecordAccess 9, OpSetEvictable 2 False, OpSetEvictable 2 True]
        = Some ([1], r)
      \<and> Size r = evictable_count r \<and> evictable_count r = 1) \<and>
   (\<exists>r0 r1. r0 = \<lparr>hash_r = [(4, \<lparr>time_f = [0], evictable_f = False\<rparr>)], current_timestamp = 1,
                   curr_size = 0, replacer_size = 7, k_r = 2\<rparr>
      \<and> distinct (map fst (hash_r r0)) \<and> Size r0 = evictable_count r0
      \<and> apply_op r0 (OpSetEvictable 4 True) = Returns None r1
      \<and> Size r1 = evictable_count r1 \<and> Size r1 = 1)"
proof -
  let ?ops = "[OpRecordAccess 1, OpRecordAccess 2, OpRecordAccess 3, OpSetEvictable 1 True,
           OpSetEvictable 2 True, OpSetEvictable 3 True, OpEvict, OpSetEvictable 5 True,
           OpRemove 3, OpRecordAccess 9, OpSetEvictable 2 False, OpSetEvictable 2 True]"
  obtain r where r: "run (new_LRUKReplacer 7 2) ?ops = Some ([1], r)"
    and c: "evictable_count r = 1"
    by (simp add: lru_defs evictable_count_def)
  from Size_counts_evictable [of 7 2 ?ops "[1]" r, THEN conjunct1] r
  have "Size r = evictable_count r" by simp
  with r c have first: "\<exists>r. run (new_LRUKReplacer 7 2) ?ops = Some ([1], r)
      \<and> Size r = evictable_count r \<and> evictable_count r = 1" by blast
  let ?r0 = "\<lparr>hash_r = [(4, \<lparr>time_f = [0], evictable_f = False\<rparr>)], current_timestamp = 1,
                   curr_size = 0, replacer_size = 7, k_r = 2\<rparr>"
  obtain r1 where a: "apply_op ?r0 (OpSetEvictable 4 True) = Returns None r1"
    and s1: "Size r1 = 1" by (simp add: lru_defs)
  have d: "distinct (map fst (hash_r ?r0))" and e: "Size ?r0 = evictable_count ?r0"
    by (simp_all add: Size_def evictable_count_def)
  from Size_counts_evictable [where ?r0.0 = ?r0 and op = "OpSetEvictable 4 True" and x = None
      and ?r1.0 = r1, THEN conjunct2]
    d e a
  have "Size r1 = evictable_count r1" by blast
  with d e a s1 have "\<exists>r0 r1. r0 = ?r0
      \<and> distinct (map fst (hash_r r0)) \<and> Size r0 = evictable_count r0
      \<and> apply_op r0 (OpSetEvictable 4 True) = Returns None r1
      \<and> Size r1 = evictable_count r1 \<and> Size r1 = 1" by blast
  with first show ?thesis by blast
qed

subsection \<open>The guard of RecordAccess\<close>

lemma RecordAccess_Throws_iff:
  "(\<exists>e r'. RecordAccess r f = Throws e r') \<longleftrightarrow> static_cast_int (replacer_size r) < f"
  by (auto simp: RecordAccess_def Let_def split: list.splits)

text \<open>
  C5. The guard is \<^verbatim>\<open>frame_id > static_cast<int>(replacer_size_)\<close>: a replacer of
  capacity 7 accepts frame id 7 and records the access.
\<close>

theorem RecordAccess_accepts_capacity:
  "RecordAccess (new_LRUKReplacer 7 2) 7 =
     Returns () \<lparr>hash_r = [(7, \<lparr>time_f = [0], evictable_f = False\<rparr>)], current_timestamp = 1,
                 curr_size = 0, replacer_size = 7, k_r = 2\<rparr>"
  by (simp add: lru_defs)

text \<open>
  C6, as the claim states it, fails: on a replacer of capacity 7 the call with frame id 8
  throws and the clock is what it was.
\<close>

theorem RecordAccess_failure_keeps_clock:
  "\<exists>r'. RecordAccess (new_LRUKReplacer 7 2) 8 = Throws FrameInvalid r' \<and>
     current_timestamp r' = current_timestamp (new_LRUKReplacer 7 2) \<and>
     current_timestamp r' \<noteq> current_timestamp (new_LRUKReplacer 7 2) + 1"
  by (simp add: lru_defs)

text \<open>
  C6, amended. A call of \<^verbatim>\<open>RecordAccess\<close> that returns advances the clock by exactly
  one; a call that throws throws the invalid-frame error and leaves the whole replacer,
  the clock included, unchanged.
\<close>

theorem RecordAccess_clock:
  "(RecordAccess r f = Returns u r' \<longrightarrow> current_timestamp r' = current_timestamp r + 1) \<and>
   (RecordAccess r f = Throws e r' \<longrightarrow> e = FrameInvalid \<and> r' = r)"
proof -
  have "current_timestamp r' = current_timestamp r + 1" if "RecordAccess r f = Returns u r'"
    using RecordAccess_Returns [OF that] by blast
  moreover have "e = FrameInvalid \<and> r' = r" if "RecordAccess r f = Throws e r'"
    using RecordAccess_Throws [OF that] by simp
  ultimately show ?thesis by blast
qed

theorem RecordAccess_clock_witness:
  "(\<exists>r'. RecordAccess (new_LRUKReplacer 7 2) 1 = Returns () r' \<and>
      current_timestamp r' = current_timestamp (new_LRUKReplacer 7 2) + 1) \<and>
   (\<exists>e r'. RecordAccess (new_LRUKReplacer 7 2) 8 = Throws e r' \<and>
      e = FrameInvalid \<and> r' = new_LRUKReplacer 7 2)"
proof -
  obtain r' where r: "RecordAccess (new_LRUKReplacer 7 2) 1 = Returns () r'"
    by (simp add: lru_defs)
  from RecordAccess_clock [of "new_LRUKReplacer 7 2" 1 "()" r', THEN conjunct1] r
  have "current_timestamp r' = current_timestamp (new_LRUKReplacer 7 2) + 1" by simp
  with r have first: "\<exists>r'. RecordAccess (new_LRUKReplacer 7 2) 1 = Returns () r' \<and>
      current_timestamp r' = current_timestamp (new_LRUKReplacer 7 2) + 1" by blast
  obtain e r'' where t: "RecordAccess (new_LRUKReplacer 7 2) 8 = Throws e r''"
    by (simp add: lru_defs)
  from RecordAccess_clock [where r = "new_LRUKReplacer 7 2" and f = 8 and e = e and r' = r'',
      THEN conjunct2] t
  have "e = FrameInvalid \<and> r'' = new_LRUKReplacer 7 2" by simp
  with t first show ?thesis by blast
qed

subsection \<open>RecordAccess and the evictable flags\<close>

lemma RecordAccess_is_evictable:
  assumes "RecordAccess r f = Returns u r'"
  shows "is_evictable r' g = is_evictable r g"
proof -
  from RecordAccess_Returns [OF assms]
  obtain fr' where h: "hash_r r' = AList.update f fr' (hash_r r)"
    and ev: "evictable_f fr' = evictable_f (frame_at r f)" by blast
  show ?thesis
    using ev by (auto simp: is_evictable_def h update_conv' frame_at_def default_Frame_def
                      split: option.splits)
qed

lemma SetEvictable_is_evictable:
  "is_evictable (SetEvictable r f b) g = (if g = f \<and> map_of (hash_r r) f \<noteq> None then b else is_evictable r g)"
  by (auto simp: SetEvictable_def is_evictable_def Let_def update_conv' split: option.splits)

lemma Remove_is_evictable:
  "LRUKReplacer_Remove r f = Returns u r' \<Longrightarrow> is_evictable r' g \<Longrightarrow> is_evictable r g"
  by (auto simp: LRUKReplacer_Remove_def is_evictable_def delete_conv' split: option.splits if_splits)

lemma Remove_Returns_evictable:
  "LRUKReplacer_Remove r f = Returns u r' \<Longrightarrow> f \<in> fst ` set (hash_r r) \<Longrightarrow> is_evictable r f"
  by (auto simp: LRUKReplacer_Remove_def is_evictable_def map_of_eq_None_iff
           split: option.splits if_splits)

lemma Evict_loop_candidate:
  "Evict_loop r xs c = Some c' \<Longrightarrow> c' = c \<or> (\<exists>v. (c', v) \<in> set xs \<and> evictable_f v)"
proof (induction xs arbitrary: c)
  case Nil
  then show ?case by simp
next
  case (Cons p xs)
  obtain k v where p: "p = (k, v)" by (cases p)
  from Cons.prems p consider
      "Evict_loop r xs c = Some c'"
    | "evictable_f v" "Evict_loop r xs k = Some c'"
    by (auto split: if_splits option.splits)
  then show ?case
  proof cases
    case 1
    from Cons.IH [OF this] show ?thesis by auto
  next
    case 2
    from Cons.IH [OF 2(2)] 2(1) p show ?thesis by auto
  qed
qed

lemma Evict_Returns_evictable:
  assumes "Evict r = Returns (Some f) r'"
  shows "is_evictable r f"
proof -
  from Evict_cases [OF assms] have ne: "f \<noteq> - 1" and rem: "LRUKReplacer_Remove r f = Returns () r'"
    by auto
  from assms have "Evict_loop r (hash_r r) (- 1) = Some f"
    by (auto simp: Evict_def split: option.splits if_splits outcome.splits)
  from Evict_loop_candidate [OF this] ne have "f \<in> fst ` set (hash_r r)" by force
  with rem show ?thesis by (rule Remove_Returns_evictable)
qed

lemma apply_op_not_evictable:
  assumes ne: "\<not> is_evictable r f" and op: "op \<noteq> OpSetEvictable f True"
  shows "apply_op r op = Returns x r' \<Longrightarrow> \<not> is_evictable r' f \<and> x \<noteq> Some f"
    and "apply_op r op = Throws e r' \<Longrightarrow> \<not> is_evictable r' f"
proof -
  show "apply_op r op = Returns x r' \<Longrightarrow> \<not> is_evictable r' f \<and> x \<noteq> Some f"
  proof (cases op)
    case (OpRecordAccess g)
    assume "apply_op r op = Returns x r'"
    with OpRecordAccess have "RecordAccess r g = Returns () r'" "x = None"
      by (auto split: outcome.splits)
    with ne show ?thesis by (simp add: RecordAccess_is_evictable)
  next
    case (OpSetEvictable g b)
    assume "apply_op r op = Returns x r'"
    with OpSetEvictable op ne show ?thesis
      by (auto simp: SetEvictable_is_evictable split: if_splits)
  next
    case OpEvict
    assume "apply_op r op = Returns x r'"
    with OpEvict have ev: "Evict r = Returns x r'" by simp
    from Evict_cases [OF ev] have "\<not> is_evictable r' f"
      using ne by (auto dest: Remove_is_evictable)
    moreover have "x \<noteq> Some f" using ev ne by (auto dest: Evict_Returns_evictable)
    ultimately show ?thesis by simp
  next
    case (OpRemove g)
    assume "apply_op r op = Returns x r'"
    with OpRemove have "LRUKReplacer_Remove r g = Returns () r'" "x = None"
      by (auto split: outcome.splits)
    with ne show ?thesis by (auto dest: Remove_is_evictable)
  qed
  show "apply_op r op = Throws e r' \<Longrightarrow> \<not> is_evictable r' f"
  proof (cases op)
    case (OpRecordAccess g)
    assume "apply_op r op = Throws e r'"
    with OpRecordAccess have "RecordAccess r g = Throws e r'" by (auto split: outcome.splits)
    with ne show ?thesis by (auto dest: RecordAccess_Throws)
  next
    case (OpSetEvictable g b)
    assume "apply_op r op = Throws e r'"
    with OpSetEvictable show ?thesis by simp
  next
    case OpEvict
    assume "apply_op r op = Throws e r'"
    with OpEvict ne show ?thesis by (auto dest: Evict_Throws)
  next
    case (OpRemove g)
    assume "apply_op r op = Throws e r'"
    with OpRemove have "LRUKReplacer_Remove r g = Throws e r'" by (auto split: outcome.splits)
    with ne show ?thesis by (auto dest: Remove_outcome(2))
  qed
qed

lemma run_not_evicted:
  "\<not> is_evictable r f \<Longrightarrow> OpSetEvictable f True \<notin> set ops \<Longrightarrow> run r ops = Some (es, r')
     \<Longrightarrow> f \<notin> set es"
proof (induction ops arbitrary: r es)
  case Nil
  then show ?case by simp
next
  case (Cons op ops)
  from Cons.prems(2) have op: "op \<noteq> OpSetEvictable f True"
    and ops: "OpSetEvictable f True \<notin> set ops" by auto
  show ?case
  proof (cases "apply_op r op")
    case (Returns x r1)
    with Cons.prems(3) obtain es1 where run1: "run r1 ops = Some (es1, r')"
      and es: "es = (case x of None \<Rightarrow> es1 | Some g \<Rightarrow> g # es1)"
      by (auto split: option.splits)
    from apply_op_not_evictable(1) [OF Cons.prems(1) op Returns]
    have ne1: "\<not> is_evictable r1 f" and x: "x \<noteq> Some f" by simp_all
    from Cons.IH [OF ne1 ops run1] have "f \<notin> set es1" .
    with x es show ?thesis by (cases x) auto
  next
    case (Throws e r1)
    with Cons.prems(3) have run1: "run r1 ops = Some (es, r')" by simp
    from apply_op_not_evictable(2) [OF Cons.prems(1) op Throws] have "\<not> is_evictable r1 f" .
    from Cons.IH [OF this ops run1] show ?thesis .
  next
    case Undefined
    with Cons.prems(3) show ?thesis by simp
  qed
qed

text \<open>
  C9. A call of \<^verbatim>\<open>RecordAccess\<close> that returns leaves \<^verbatim>\<open>Size()\<close> and the evictable
  flag of every frame as they were. A frame it creates is tracked with its flag false, and
  in no sequence of later calls without \<^verbatim>\<open>SetEvictable(frame_id, true)\<close> does an
  \<^verbatim>\<open>Evict\<close> return that frame.
\<close>

theorem RecordAccess_keeps_flags:
  "RecordAccess r f = Returns u r' \<Longrightarrow>
     Size r' = Size r \<and> (\<forall>g. is_evictable r' g = is_evictable r g) \<and>
     (map_of (hash_r r) f = None \<longrightarrow>
        (\<exists>fr. map_of (hash_r r') f = Some fr \<and> \<not> evictable_f fr) \<and>
        (\<forall>ops es r''. OpSetEvictable f True \<notin> set ops \<and> run r' ops = Some (es, r'')
            \<longrightarrow> f \<notin> set es))"
proof -
  assume ra: "RecordAccess r f = Returns u r'"
  from RecordAccess_Returns [OF ra]
  obtain fr' where h: "hash_r r' = AList.update f fr' (hash_r r)"
    and ev: "evictable_f fr' = evictable_f (frame_at r f)"
    and cs: "curr_size r' = curr_size r" by blast
  have 1: "Size r' = Size r" using cs by (simp add: Size_def)
  have 2: "\<forall>g. is_evictable r' g = is_evictable r g"
    using ra by (simp add: RecordAccess_is_evictable)
  have 3: "(\<exists>fr. map_of (hash_r r') f = Some fr \<and> \<not> evictable_f fr) \<and>
        (\<forall>ops es r''. OpSetEvictable f True \<notin> set ops \<and> run r' ops = Some (es, r'')
            \<longrightarrow> f \<notin> set es)" if none: "map_of (hash_r r) f = None"
  proof -
    from none ev have nev: "\<not> evictable_f fr'" by (simp add: frame_at_def default_Frame_def)
    have m: "map_of (hash_r r') f = Some fr'" by (simp add: h update_conv')
    with nev have "\<not> is_evictable r' f" by (simp add: is_evictable_def)
    then have "\<forall>ops es r''. OpSetEvictable f True \<notin> set ops \<and> run r' ops = Some (es, r'')
            \<longrightarrow> f \<notin> set es" by (blast dest: run_not_evicted)
    with m nev show ?thesis by blast
  qed
  from 1 2 3 show ?thesis by blast
qed

theorem RecordAccess_keeps_flags_witness:
  "\<exists>r' r''. RecordAccess (new_LRUKReplacer 7 2) 1 = Returns () r' \<and>
     Size r' = Size (new_LRUKReplacer 7 2) \<and> \<not> is_evictable r' 1 \<and>
     run r' [OpRecordAccess 2, OpSetEvictable 2 True, OpSetEvictable 1 False, OpEvict, OpEvict]
       = Some ([2], r'') \<and> 1 \<notin> set [2::int]"
proof -
  let ?ops = "[OpRecordAccess 2, OpSetEvictable 2 True, OpSetEvictable 1 False, OpEvict, OpEvict]"
  obtain r' r'' where ra: "RecordAccess (new_LRUKReplacer 7 2) 1 = Returns () r'"
    and run: "run r' ?ops = Some ([2], r'')"
    by (simp add: lru_defs)
  have none: "map_of (hash_r (new_LRUKReplacer 7 2)) 1 = None"
    by (simp add: new_LRUKReplacer_def)
  note k = RecordAccess_keeps_flags [OF ra]
  from k have s: "Size r' = Size (new_LRUKReplacer 7 2)" by blast
  from k have "is_evictable r' 1 = is_evictable (new_LRUKReplacer 7 2) 1" by blast
  then have e: "\<not> is_evictable r' 1" by (simp add: is_evictable_def new_LRUKReplacer_def)
  from k none run have "1 \<notin> set [2::int]" by simp
  with ra run s e show ?thesis by blast
qed

subsection \<open>The victim of Evict\<close>

lemma CompareFrame_rank:
  assumes "frame_ok r f1" and "frame_ok r f2"
  shows "CompareFrame r f1 f2 = Some (rank r f1 < rank r f2)"
proof -
  from assms obtain a q1 b q2 where t1: "time_f (frame_at r f1) = a # q1"
    and t2: "time_f (frame_at r f2) = b # q2"
    by (auto simp: frame_ok_def neq_Nil_conv)
  from assms have "length (time_f (frame_at r f1)) \<le> k_r r" "length (time_f (frame_at r f2)) \<le> k_r r"
    by (simp_all add: frame_ok_def)
  then show ?thesis
    unfolding CompareFrame_def rank_def Let_def t1 t2
    by (auto simp: less_le)
qed

lemma Evict_loop_min:
  assumes "\<forall>(g, v) \<in> set xs. g \<noteq> - 1 \<and> frame_ok r g"
    and "c = - 1 \<or> frame_ok r c"
  shows "\<exists>c'. Evict_loop r xs c = Some c' \<and>
           (c \<noteq> - 1 \<longrightarrow> c' \<noteq> - 1 \<and> rank r c' \<le> rank r c) \<and>
           (\<forall>(g, v) \<in> set xs. evictable_f v \<longrightarrow> c' \<noteq> - 1 \<and> rank r c' \<le> rank r g)"
  using assms
proof (induction xs arbitrary: c)
  case Nil
  then show ?case by simp
next
  case (Cons p xs)
  obtain k v where p: "p = (k, v)" by (cases p)
  from Cons.prems(1) p have k: "k \<noteq> - 1" "frame_ok r k"
    and rest: "\<forall>(g, v) \<in> set xs. g \<noteq> - 1 \<and> frame_ok r g" by auto
  show ?case
  proof (cases "evictable_f v")
    case False
    from Cons.IH [OF rest Cons.prems(2)] False p show ?thesis by auto
  next
    case True
    show ?thesis
    proof (cases "c = - 1")
      case c: True
      from Cons.IH [OF rest, of k] k obtain c' where
        "Evict_loop r xs k = Some c'" "c' \<noteq> - 1" "rank r c' \<le> rank r k"
        "\<forall>(g, v) \<in> set xs. evictable_f v \<longrightarrow> c' \<noteq> - 1 \<and> rank r c' \<le> rank r g"
        by auto
      with True c p show ?thesis by auto
    next
      case c: False
      with Cons.prems(2) have cok: "frame_ok r c" by simp
      let ?c1 = "if rank r k < rank r c then k else c"
      have c1: "?c1 \<noteq> - 1" "frame_ok r ?c1" "rank r ?c1 \<le> rank r k" "rank r ?c1 \<le> rank r c"
        using k c cok by auto
      from Cons.IH [OF rest, of ?c1] c1(1,2) obtain c' where
        l: "Evict_loop r xs ?c1 = Some c'" and ne: "c' \<noteq> - 1" and le: "rank r c' \<le> rank r ?c1"
        and all: "\<forall>(g, v) \<in> set xs. evictable_f v \<longrightarrow> c' \<noteq> - 1 \<and> rank r c' \<le> rank r g"
        by auto
      have "Evict_loop r (p # xs) c = Some c'"
        using True c l by (simp add: p CompareFrame_rank [OF k(2) cok])
      moreover from le c1(3,4) have "rank r c' \<le> rank r k" "rank r c' \<le> rank r c"
        by (blast intro: order_trans)+
      ultimately show ?thesis using ne all p by auto
    qed
  qed
qed

lemma replacer_ok_frame:
  assumes "replacer_ok r" and "(g, v) \<in> set (hash_r r)"
  shows "g \<noteq> - 1" "frame_at r g = v" "frame_ok r g" "map_of (hash_r r) g = Some v"
proof -
  from assms have d: "distinct (map fst (hash_r r))" by (simp add: replacer_ok_def)
  with assms(2) show m: "map_of (hash_r r) g = Some v" by simp
  then show fa: "frame_at r g = v" by (simp add: frame_at_def)
  from assms have e: "entry_ok (k_r r) (g, v)" by (simp add: replacer_ok_def list_all_iff)
  then show "g \<noteq> - 1" by (simp add: entry_ok_def)
  from e fa show "frame_ok r g" by (simp add: entry_ok_def frame_ok_def)
qed

lemma rank_le_facts:
  assumes "rank r f \<le> rank r g" and "frame_ok r f" and "frame_ok r g"
  shows "k_distance r (frame_at r g) \<le> k_distance r (frame_at r f)"
    and "length (time_f (frame_at r g)) < k_r r \<Longrightarrow> length (time_f (frame_at r f)) < k_r r"
    and "length (time_f (frame_at r f)) < k_r r \<Longrightarrow> length (time_f (frame_at r g)) < k_r r \<Longrightarrow>
           hd (time_f (frame_at r f)) \<le> hd (time_f (frame_at r g))"
proof -
  let ?tf = "time_f (frame_at r f)" and ?tg = "time_f (frame_at r g)"
  from assms(2,3) have lf: "length ?tf \<le> k_r r" and lg: "length ?tg \<le> k_r r"
    and nf: "?tf \<noteq> []" and ng: "?tg \<noteq> []"
    by (simp_all add: frame_ok_def)
  from assms(1) have le: "(length ?tf = k_r r \<longrightarrow> length ?tg = k_r r) \<and>
      ((length ?tf = k_r r) = (length ?tg = k_r r) \<longrightarrow> hd ?tf \<le> hd ?tg)"
    by (auto simp: rank_def less_eq_prod_def le_less)
  show "length ?tg < k_r r \<Longrightarrow> length ?tf < k_r r" using le lf lg by auto
  show "length ?tf < k_r r \<Longrightarrow> length ?tg < k_r r \<Longrightarrow> hd ?tf \<le> hd ?tg" using le by auto
  show "k_distance r (frame_at r g) \<le> k_distance r (frame_at r f)"
  proof (cases "length ?tf < k_r r")
    case True
    then show ?thesis by (simp add: k_distance_def)
  next
    case False
    with lf have ef: "length ?tf = k_r r" by simp
    with le have eg: "length ?tg = k_r r" and h: "hd ?tf \<le> hd ?tg" by simp_all
    from nf ng have "?tf ! 0 = hd ?tf" "?tg ! 0 = hd ?tg" by (simp_all add: hd_conv_nth)
    with ef eg h show ?thesis by (simp add: k_distance_def diff_le_mono2)
  qed
qed

lemma list_all_update: "list_all P al \<Longrightarrow> P (k, v) \<Longrightarrow> list_all P (AList.update k v al)"
  by (induction al) auto

lemma list_all_delete: "list_all P al \<Longrightarrow> list_all P (AList.delete k al)"
  by (induction al) auto

lemma RecordAccess_replacer_ok:
  assumes ra: "RecordAccess r f = Returns u r'" and ok: "replacer_ok r" and k: "0 < k_r r"
    and f: "f \<noteq> - 1"
  shows "replacer_ok r' \<and> k_r r' = k_r r"
proof -
  have fa: "length (time_f (frame_at r f)) \<le> k_r r"
  proof (cases "map_of (hash_r r) f")
    case None
    then show ?thesis by (simp add: frame_at_def default_Frame_def)
  next
    case (Some fr)
    then have "(f, fr) \<in> set (hash_r r)" by (rule map_of_SomeD)
    with ok have "entry_ok (k_r r) (f, fr)" by (simp add: replacer_ok_def list_all_iff)
    with Some show ?thesis by (simp add: frame_at_def entry_ok_def)
  qed
  from RecordAccess_Returns [OF ra] fa k
  obtain fr' where h: "hash_r r' = AList.update f fr' (hash_r r)"
    and t: "time_f fr' \<noteq> []" "length (time_f fr') \<le> k_r r" and kk: "k_r r' = k_r r"
    by auto
  from t f have "entry_ok (k_r r) (f, fr')" by (simp add: entry_ok_def)
  with ok h kk show ?thesis by (simp add: replacer_ok_def distinct_update list_all_update)
qed

lemma SetEvictable_replacer_ok:
  assumes ok: "replacer_ok r"
  shows "replacer_ok (SetEvictable r f b) \<and> k_r (SetEvictable r f b) = k_r r"
proof (cases "map_of (hash_r r) f")
  case None
  with ok show ?thesis by (simp add: SetEvictable_def)
next
  case (Some fr)
  then have "(f, fr) \<in> set (hash_r r)" by (rule map_of_SomeD)
  with ok have "entry_ok (k_r r) (f, fr)" by (simp add: replacer_ok_def list_all_iff)
  then have "entry_ok (k_r r) (f, fr\<lparr>evictable_f := b'\<rparr>)" for b'
    by (simp add: entry_ok_def)
  with ok Some show ?thesis
    by (simp add: SetEvictable_def Let_def replacer_ok_def distinct_update list_all_update)
qed

lemma Remove_replacer_ok:
  "LRUKReplacer_Remove r f = Returns u r' \<Longrightarrow> replacer_ok r \<Longrightarrow> replacer_ok r' \<and> k_r r' = k_r r"
  by (auto simp: replacer_ok_def LRUKReplacer_Remove_def distinct_delete list_all_delete
           split: option.splits if_splits)

lemma apply_op_replacer_ok:
  assumes ok: "replacer_ok r" and k: "0 < k_r r" and op: "op_ok op"
  shows "apply_op r op = Returns x r' \<Longrightarrow> replacer_ok r' \<and> k_r r' = k_r r"
    and "apply_op r op = Throws e r' \<Longrightarrow> replacer_ok r' \<and> k_r r' = k_r r"
proof -
  show "apply_op r op = Returns x r' \<Longrightarrow> replacer_ok r' \<and> k_r r' = k_r r"
  proof (cases op)
    case (OpRecordAccess f)
    assume "apply_op r op = Returns x r'"
    with OpRecordAccess have "RecordAccess r f = Returns () r'" by (auto split: outcome.splits)
    moreover from op OpRecordAccess have "f \<noteq> - 1" by auto
    ultimately show ?thesis using ok k by (simp add: RecordAccess_replacer_ok)
  next
    case (OpSetEvictable f b)
    assume "apply_op r op = Returns x r'"
    with OpSetEvictable ok show ?thesis by (auto simp: SetEvictable_replacer_ok)
  next
    case OpEvict
    assume "apply_op r op = Returns x r'"
    with OpEvict have "Evict r = Returns x r'" by simp
    from Evict_cases [OF this] ok show ?thesis by (auto dest: Remove_replacer_ok)
  next
    case (OpRemove f)
    assume "apply_op r op = Returns x r'"
    with OpRemove have "LRUKReplacer_Remove r f = Returns () r'" by (auto split: outcome.splits)
    then show ?thesis using ok by (rule Remove_replacer_ok)
  qed
  show "apply_op r op = Throws e r' \<Longrightarrow> replacer_ok r' \<and> k_r r' = k_r r"
  proof (cases op)
    case (OpRecordAccess f)
    assume "apply_op r op = Throws e r'"
    with OpRecordAccess have "RecordAccess r f = Throws e r'" by (auto split: outcome.splits)
    with ok show ?thesis by (auto dest: RecordAccess_Throws)
  next
    case (OpSetEvictable f b)
    assume "apply_op r op = Throws e r'"
    with OpSetEvictable show ?thesis by simp
  next
    case OpEvict
    assume "apply_op r op = Throws e r'"
    with OpEvict ok show ?thesis by (auto dest: Evict_Throws)
  next
    case (OpRemove f)
    assume "apply_op r op = Throws e r'"
    with OpRemove have "LRUKReplacer_Remove r f = Throws e r'" by (auto split: outcome.splits)
    with ok show ?thesis by (auto dest: Remove_outcome(2))
  qed
qed

lemma run_replacer_ok_aux:
  "replacer_ok r \<Longrightarrow> 0 < k_r r \<Longrightarrow> list_all op_ok ops \<Longrightarrow> run r ops = Some (es, r')
     \<Longrightarrow> replacer_ok r'"
proof (induction ops arbitrary: r es)
  case Nil
  then show ?case by simp
next
  case (Cons op ops)
  from Cons.prems(3) have op: "op_ok op" and ops: "list_all op_ok ops" by simp_all
  note step = apply_op_replacer_ok [OF Cons.prems(1,2) op]
  show ?case
  proof (cases "apply_op r op")
    case (Returns x r1)
    with Cons.prems(4) obtain es1 where run1: "run r1 ops = Some (es1, r')"
      by (auto split: option.splits)
    from step(1) [OF Returns] Cons.prems(2) have "replacer_ok r1" "0 < k_r r1" by simp_all
    from Cons.IH [OF this ops run1] show ?thesis .
  next
    case (Throws e r1)
    with Cons.prems(4) have run1: "run r1 ops = Some (es, r')" by simp
    from step(2) [OF Throws] Cons.prems(2) have "replacer_ok r1" "0 < k_r r1" by simp_all
    from Cons.IH [OF this ops run1] show ?thesis .
  next
    case Undefined
    with Cons.prems(4) show ?thesis by simp
  qed
qed

lemma run_replacer_ok:
  "0 < k \<Longrightarrow> list_all op_ok ops \<Longrightarrow> run (new_LRUKReplacer n k) ops = Some (es, r)
     \<Longrightarrow> replacer_ok r"
  by (rule run_replacer_ok_aux [of "new_LRUKReplacer n k"])
     (simp_all add: replacer_ok_def new_LRUKReplacer_def)

lemma sentinel_frame_not_evicted:
  "\<exists>r. run (new_LRUKReplacer 7 2) [OpRecordAccess (- 1), OpSetEvictable (- 1) True, OpEvict]
          = Some ([], r) \<and> Size r = 1 \<and> is_evictable r (- 1)"
  by (simp add: lru_defs is_evictable_def)

text \<open>
  C3. On a replacer whose tracked frames have ids other than \<open>-1\<close> and histories of 1 to
  K timestamps, \<^verbatim>\<open>Evict\<close> returns. It returns no frame exactly when no tracked frame is
  evictable. Otherwise it returns an evictable tracked frame of largest backward
  k-distance among the evictable frames: never a frame with K accesses while an evictable
  frame with fewer exists, and, when it has fewer than K accesses, one whose oldest
  retained timestamp is smallest among the evictable frames with fewer than K accesses.
\<close>

theorem Evict_selects_victim:
  assumes ok: "replacer_ok r"
  shows "\<exists>res r'. Evict r = Returns res r' \<and>
     (res = None \<longleftrightarrow> (\<forall>(g, gr) \<in> set (hash_r r). \<not> evictable_f gr)) \<and>
     (\<forall>f. res = Some f \<longrightarrow>
        (\<exists>fr. map_of (hash_r r) f = Some fr \<and> evictable_f fr \<and>
           (\<forall>g gr. map_of (hash_r r) g = Some gr \<and> evictable_f gr \<longrightarrow>
              k_distance r gr \<le> k_distance r fr \<and>
              (length (time_f gr) < k_r r \<longrightarrow> length (time_f fr) < k_r r) \<and>
              (length (time_f fr) < k_r r \<and> length (time_f gr) < k_r r
                 \<longrightarrow> hd (time_f fr) \<le> hd (time_f gr)))))"
proof -
  have all: "\<forall>(g, v) \<in> set (hash_r r). g \<noteq> - 1 \<and> frame_ok r g"
    using replacer_ok_frame [OF ok] by auto
  from Evict_loop_min [OF all, of "- 1"] obtain c where
    loop: "Evict_loop r (hash_r r) (- 1) = Some c"
    and min: "\<forall>(g, v) \<in> set (hash_r r). evictable_f v \<longrightarrow> c \<noteq> - 1 \<and> rank r c \<le> rank r g"
    by auto
  show ?thesis
  proof (cases "c = - 1")
    case True
    with loop have "Evict r = Returns None r" by (simp add: Evict_def)
    moreover from min True have "\<forall>(g, gr) \<in> set (hash_r r). \<not> evictable_f gr" by auto
    ultimately show ?thesis by simp
  next
    case False
    from Evict_loop_candidate [OF loop] False obtain fr where
      mem: "(c, fr) \<in> set (hash_r r)" and ev: "evictable_f fr" by auto
    note c = replacer_ok_frame [OF ok mem]
    from c(4) ev have "\<exists>r'. LRUKReplacer_Remove r c = Returns () r'"
      by (simp add: LRUKReplacer_Remove_def)
    then obtain r' where "LRUKReplacer_Remove r c = Returns () r'" ..
    with loop False have e: "Evict r = Returns (Some c) r'" by (simp add: Evict_def)
    have best: "k_distance r gr \<le> k_distance r fr \<and>
              (length (time_f gr) < k_r r \<longrightarrow> length (time_f fr) < k_r r) \<and>
              (length (time_f fr) < k_r r \<and> length (time_f gr) < k_r r
                 \<longrightarrow> hd (time_f fr) \<le> hd (time_f gr))"
      if "map_of (hash_r r) g = Some gr" "evictable_f gr" for g gr
    proof -
      from that(1) have gm: "(g, gr) \<in> set (hash_r r)" by (rule map_of_SomeD)
      note g = replacer_ok_frame [OF ok gm]
      from min gm that(2) have "rank r c \<le> rank r g" by auto
      from rank_le_facts [OF this c(3) g(3)] show ?thesis by (simp add: c(2) g(2))
    qed
    have "\<not> (\<forall>(g, gr) \<in> set (hash_r r). \<not> evictable_f gr)" using mem ev by auto
    with e c(4) ev best show ?thesis by auto
  qed
qed

theorem Evict_selects_victim_witness:
  "\<exists>r. run (new_LRUKReplacer 7 2)
          [OpRecordAccess 1, OpRecordAccess 2, OpRecordAccess 3,
           OpSetEvictable 1 True, OpSetEvictable 2 True, OpSetEvictable 3 True] = Some ([], r)
      \<and> replacer_ok r \<and> (\<exists>r'. Evict r = Returns (Some 1) r')"
proof -
  let ?ops = "[OpRecordAccess 1, OpRecordAccess 2, OpRecordAccess 3,
           OpSetEvictable 1 True, OpSetEvictable 2 True, OpSetEvictable 3 True]"
  let ?r = "\<lparr>hash_r = [(1, \<lparr>time_f = [0], evictable_f = True\<rparr>),
                       (2, \<lparr>time_f = [1], evictable_f = True\<rparr>),
                       (3, \<lparr>time_f = [2], evictable_f = True\<rparr>)],
            current_timestamp = 3, curr_size = 3, replacer_size = 7, k_r = 2\<rparr>"
  have r: "run (new_LRUKReplacer 7 2) ?ops = Some ([], ?r)" by (simp add: lru_defs)
  have ok: "replacer_ok ?r" by (simp add: replacer_ok_def entry_ok_def)
  from Evict_selects_victim [OF ok] obtain res r' where e: "Evict ?r = Returns res r'"
    and n: "res = None \<longleftrightarrow> (\<forall>(g, gr) \<in> set (hash_r ?r). \<not> evictable_f gr)"
    and s: "\<forall>f. res = Some f \<longrightarrow>
        (\<exists>fr. map_of (hash_r ?r) f = Some fr \<and> evictable_f fr \<and>
           (\<forall>g gr. map_of (hash_r ?r) g = Some gr \<and> evictable_f gr \<longrightarrow>
              k_distance ?r gr \<le> k_distance ?r fr \<and>
              (length (time_f gr) < k_r ?r \<longrightarrow> length (time_f fr) < k_r ?r) \<and>
              (length (time_f fr) < k_r ?r \<and> length (time_f gr) < k_r ?r
                 \<longrightarrow> hd (time_f fr) \<le> hd (time_f gr))))"
    by blast
  from n obtain f where f: "res = Some f" by auto
  with s obtain fr where fr: "map_of (hash_r ?r) f = Some fr"
    and least: "\<forall>g gr. map_of (hash_r ?r) g = Some gr \<and> evictable_f gr \<longrightarrow>
              (length (time_f fr) < k_r ?r \<and> length (time_f gr) < k_r ?r
                 \<longrightarrow> hd (time_f fr) \<le> hd (time_f gr))"
    by blast
  from least [rule_format, of 1 "\<lparr>time_f = [0], evictable_f = True\<rparr>"] fr
  have "f = 1" by (auto split: if_splits)
  with e f r ok show ?thesis by blast
qed

end
